theory Spec2Isabelle
  imports Main "HOL-Library.Signed_Division"
begin

section \<open>The k-permutation unranking engine of mnemonic-search\<close>

text \<open>
  The three functions \<^verbatim>\<open>permutationCountBig\<close>, \<^verbatim>\<open>getLargeKPermutationAtIndex\<close> and
  \<^verbatim>\<open>getKPermutationForLargeDataset\<close> are embedded as HOL functions.

  \<^item> A \<^verbatim>\<open>bigint\<close> is an \<^typ>\<open>int\<close>. A \<^verbatim>\<open>number\<close> that holds an integer (the arities
    \<^verbatim>\<open>n\<close>, \<^verbatim>\<open>k\<close>, the loop counters and the offsets) is an \<^typ>\<open>int\<close> as well. The
    arithmetic of \<^verbatim>\<open>number\<close> is that of doubles: the exact value of \<^verbatim>\<open>n - i\<close> or \<^verbatim>\<open>i + 1\<close> is
    rounded to the nearest double, which changes it only when its magnitude exceeds
    \<open>2 ^ 53\<close>. The counter is given with this rounding (\<open>permutationCountBig_double\<close>) and
    on exact integers (\<open>permutationCountBig\<close>); the two agree for \<open>n \<le> 2 ^ 53\<close>.
  \<^item> Every \<^verbatim>\<open>throw\<close> of the code, and every exception that the built-in operations it
    calls can raise, is a constructor of the type \<open>error\<close>; a function that can throw returns
    a value of \<open>error + 'a\<close>.
  \<^item> A \<^verbatim>\<open>for\<close> loop is a recursive function on the loop counter and the variables that
    the loop assigns.
\<close>

subsection \<open>Errors\<close>

datatype error =
    BigIntSyntaxError
      \<comment> \<open>\<^verbatim>\<open>BigInt(indexStr)\<close> rejects the string\<close>
  | KGreaterThanN int int
      \<comment> \<open>\<^verbatim>\<open>k (${k}) cannot be greater than n (${n})\<close>\<close>
  | IndexOutOfBounds string int
      \<comment> \<open>\<^verbatim>\<open>Index ${indexStr} is out of bounds (0 to ${totalPermutations - BigInt(1)})\<close>\<close>
  | BigIntDivisionByZero
      \<comment> \<open>the \<^verbatim>\<open>RangeError\<close> of \<^verbatim>\<open>/\<close> and \<^verbatim>\<open>%\<close> on a zero \<^verbatim>\<open>bigint\<close> divisor\<close>
  | AlgorithmError int
      \<comment> \<open>\<^verbatim>\<open>Algorithm error: could not find element at position ${position}\<close>\<close>

subsection \<open>The permutation counter\<close>

text \<open>
  The double nearest to an integer \<open>x\<close>: \<open>x\<close> itself up to magnitude \<open>2 ^ 53\<close>, and beyond
  that the multiple of \<open>2 ^ e\<close> nearest to \<open>x\<close>, where \<open>e\<close> is the number of bits of \<open>\<bar>x\<bar>\<close> past
  the 53 of the significand; of two equally near ones, the one with the even significand.
  (A magnitude of \<open>2 ^ 1024\<close> would round to an infinity. It does not occur below:
  \<open>n - i\<close> and \<open>i + 1\<close> are taken of a double \<open>n\<close> and of \<open>0 \<le> i \<le> 2 ^ 53\<close>.)
\<close>

function bit_length :: "int \<Rightarrow> nat" where
  "bit_length a = (if a \<le> 0 then 0 else Suc (bit_length (a div 2)))"
  by pat_completeness auto
termination
  by (relation "measure nat") auto

declare bit_length.simps [simp del]

definition round_to_double :: "int \<Rightarrow> int" where
  "round_to_double x =
     (if \<bar>x\<bar> \<le> 9007199254740992 then x
      else
        let e = bit_length \<bar>x\<bar> - 53;
            q = \<bar>x\<bar> div 2 ^ e;
            r = \<bar>x\<bar> mod 2 ^ e;
            half = 2 ^ (e - 1);
            q = (if r > half \<or> (r = half \<and> odd q) then q + 1 else q)
        in sgn x * (q * 2 ^ e))"

text \<open>
  \<^verbatim>\<open>
  let result = BigInt(1);
  for (let i = 0; i < k; i++) { result *= BigInt(n - i); }
  return result;
  \<close>
  \<^verbatim>\<open>n - i\<close> and \<^verbatim>\<open>i++\<close> are operations on doubles, and \<^verbatim>\<open>BigInt\<close> converts the rounded
  difference. The counter \<open>i\<close> stops growing at \<open>2 ^ 53\<close>, so for a larger \<open>k\<close> the loop does
  not end: the loop is a partial function, and \<open>None\<close> is a call that does not return.
\<close>

partial_function (option) permutationCountBig_double_loop ::
  "int \<Rightarrow> int \<Rightarrow> int \<Rightarrow> int \<Rightarrow> int option" where
  "permutationCountBig_double_loop n k i result =
     (if i < k
      then permutationCountBig_double_loop n k (round_to_double (i + 1))
             (result * round_to_double (n - i))
      else Some result)"

declare permutationCountBig_double_loop.simps [code]

definition permutationCountBig_double :: "int \<Rightarrow> int \<Rightarrow> int option" where
  "permutationCountBig_double n k =
     (if k > n then Some 0
      else if k = 0 then Some 1
      else permutationCountBig_double_loop n k 0 1)"

text \<open>
  The same function on exact integers, without the rounding. It gives the value of
  \<open>permutationCountBig_double\<close> whenever \<open>n \<le> 2 ^ 53\<close> (lemma
  \<open>permutationCountBig_double_exact\<close>). The engines below are given with it: the universe
  they select from, an array or a \<^verbatim>\<open>Set\<close>, has far fewer than \<open>2 ^ 53\<close> members.
\<close>

function permutationCountBig_loop :: "int \<Rightarrow> int \<Rightarrow> int \<Rightarrow> int \<Rightarrow> int" where
  "permutationCountBig_loop n k i result =
     (if i < k then permutationCountBig_loop n k (i + 1) (result * (n - i)) else result)"
  by pat_completeness auto
termination
  by (relation "measure (\<lambda>(n, k, i, result). nat (k - i))") auto

declare permutationCountBig_loop.simps [simp del]

definition permutationCountBig :: "int \<Rightarrow> int \<Rightarrow> int" where
  "permutationCountBig n k =
     (if k > n then 0
      else if k = 0 then 1
      else permutationCountBig_loop n k 0 1)"

subsection \<open>Built-in operations of the language\<close>

text \<open>
  \<^verbatim>\<open>Number(q)\<close> of a \<^verbatim>\<open>bigint\<close> \<open>q\<close> is \<open>q\<close> itself while \<open>\<bar>q\<bar> \<le> MAX_SAFE_INTEGER\<close>. Above
  that bound it is the nearest double, again an integer of magnitude at least \<open>2 ^ 53\<close> (or an
  infinity). The model keeps \<open>q\<close> there too: an array or a \<^verbatim>\<open>Set\<close> has fewer than \<open>2 ^ 53\<close>
  entries, so the rounded and the unrounded offset are both past the end and the code below
  does the same with either; only the number printed in the last error message would differ.
\<close>

definition MAX_SAFE_INTEGER :: int where
  "MAX_SAFE_INTEGER = 9007199254740991"  \<comment> \<open>\<open>2 ^ 53 - 1\<close>\<close>

definition MAX_ARRAY_LENGTH :: int where
  "MAX_ARRAY_LENGTH = 4294967295"  \<comment> \<open>\<open>2 ^ 32 - 1\<close>, the largest length of an array\<close>

definition Number :: "int \<Rightarrow> int" where
  "Number q = q"

text \<open>
  \<^verbatim>\<open>xs[p]\<close> on an array: the element, or \<^verbatim>\<open>undefined\<close> (here \<open>None\<close>) when \<open>p\<close> is not an
  index of \<open>xs\<close>.
\<close>

definition element_at :: "'a list \<Rightarrow> int \<Rightarrow> 'a option" where
  "element_at xs p = (if 0 \<le> p \<and> p < int (length xs) then Some (xs ! nat p) else None)"

text \<open>
  \<^verbatim>\<open>xs.splice(start, 1)\<close>: a negative \<open>start\<close> counts from the end, the start is clamped to
  \<open>0 .. length\<close>, and the delete count is clamped to what is left after the start. The value
  is the array after the removal.
\<close>

definition splice1 :: "'a list \<Rightarrow> int \<Rightarrow> 'a list" where
  "splice1 xs start =
     (let len = int (length xs);
          actualStart = (if start < 0 then max (len + start) 0 else min start len);
          actualDeleteCount = min (max 1 0) (len - actualStart)
      in take (nat actualStart) xs @ drop (nat (actualStart + actualDeleteCount)) xs)"

text \<open>
  A \<^verbatim>\<open>Set<number>\<close> iterates in insertion order and holds no value twice: it is the list of
  its members in insertion order. \<^verbatim>\<open>add\<close> appends a value that is not a member,
  \<^verbatim>\<open>delete\<close> removes the value and keeps the order of the others.
\<close>

definition Set_add :: "int \<Rightarrow> int list \<Rightarrow> int list" where
  "Set_add v s = (if v \<in> set s then s else s @ [v])"

definition Set_delete :: "int \<Rightarrow> int list \<Rightarrow> int list" where
  "Set_delete v s = removeAll v s"

subsection \<open>The dense engine\<close>

text \<open>
  The conversion \<^verbatim>\<open>BigInt(indexStr)\<close> belongs to the language, not to this code: the engines
  take it as the parameter \<open>BigInt\<close>, which gives \<open>None\<close> where the built-in throws its
  \<^verbatim>\<open>SyntaxError\<close>. The dense engine converts the string before it checks \<open>k\<close>, the lazy
  engine after.

  The state of the selection loop is the triple of the variables it assigns: \<^verbatim>\<open>index\<close>,
  \<^verbatim>\<open>availableElements\<close> and \<^verbatim>\<open>result\<close>. The result array can hold \<^verbatim>\<open>undefined\<close>, which is
  what \<^verbatim>\<open>availableElements[position]\<close> gives outside the array.
  \<^verbatim>\<open>
  const blockSize = permutationCountBig(n - i - 1, k - i - 1);
  const position = Number(index / blockSize);
  index = index % blockSize;
  result.push(availableElements[position]);
  availableElements.splice(position, 1);
  \<close>
  Division and remainder of \<^verbatim>\<open>bigint\<close> truncate towards zero (\<open>sdiv\<close>, \<open>smod\<close>) and throw on a
  zero divisor.
\<close>

type_synonym 'a dense_state = "int \<times> 'a list \<times> 'a option list"

definition getLargeKPermutationAtIndex_body ::
  "int \<Rightarrow> int \<Rightarrow> int \<Rightarrow> 'a dense_state \<Rightarrow> error + 'a dense_state" where
  "getLargeKPermutationAtIndex_body n k i s =
     (case s of (index, availableElements, result) \<Rightarrow>
        let blockSize = permutationCountBig (n - i - 1) (k - i - 1) in
        if blockSize = 0 then Inl BigIntDivisionByZero
        else
          let position = Number (index sdiv blockSize);
              index = index smod blockSize
          in Inr (index,
                  splice1 availableElements position,
                  result @ [element_at availableElements position]))"

function getLargeKPermutationAtIndex_loop ::
  "int \<Rightarrow> int \<Rightarrow> int \<Rightarrow> 'a dense_state \<Rightarrow> error + 'a dense_state" where
  "getLargeKPermutationAtIndex_loop n k i s =
     (if i < k then
        (case getLargeKPermutationAtIndex_body n k i s of
           Inl e \<Rightarrow> Inl e
         | Inr s' \<Rightarrow> getLargeKPermutationAtIndex_loop n k (i + 1) s')
      else Inr s)"
  by pat_completeness auto
termination
  by (relation "measure (\<lambda>(n, k, i, s). nat (k - i))") auto

declare getLargeKPermutationAtIndex_loop.simps [simp del]

definition getLargeKPermutationAtIndex ::
  "(string \<Rightarrow> int option) \<Rightarrow> 'a list \<Rightarrow> int \<Rightarrow> string \<Rightarrow> error + 'a option list" where
  "getLargeKPermutationAtIndex BigInt elements k indexStr =
     (let n = int (length elements) in
      case BigInt indexStr of
        None \<Rightarrow> Inl BigIntSyntaxError
      | Some index \<Rightarrow>
          if k > n then Inl (KGreaterThanN k n)
          else
            let totalPermutations = permutationCountBig n k in
            if index < 0 \<or> index \<ge> totalPermutations
            then Inl (IndexOutOfBounds indexStr (totalPermutations - 1))
            else
              (case getLargeKPermutationAtIndex_loop n k 0 (index, elements, []) of
                 Inl e \<Rightarrow> Inl e
               | Inr (index', availableElements, result) \<Rightarrow> Inr result))"

text \<open>
  The states in which the loop, started in \<open>s0\<close>, reaches its test \<^verbatim>\<open>i < k\<close>:
  \<open>getLargeKPermutationAtIndex_entry n k s0 i s\<close> says that it does so with counter \<open>i\<close> and
  state \<open>s\<close>.
\<close>

inductive getLargeKPermutationAtIndex_entry ::
  "int \<Rightarrow> int \<Rightarrow> 'a dense_state \<Rightarrow> int \<Rightarrow> 'a dense_state \<Rightarrow> bool"
  for n k s0 where
    dense_entry_first: "getLargeKPermutationAtIndex_entry n k s0 0 s0"
  | dense_entry_next:
      "getLargeKPermutationAtIndex_entry n k s0 i s \<Longrightarrow> i < k \<Longrightarrow>
       getLargeKPermutationAtIndex_body n k i s = Inr s' \<Longrightarrow>
       getLargeKPermutationAtIndex_entry n k s0 (i + 1) s'"

subsection \<open>The lazy engine\<close>

text \<open>
  \<^verbatim>\<open>
  const availableIndices = new Set<number>();
  for (let i = 0; i < n; i++) { availableIndices.add(i); }
  \<close>
\<close>

function getKPermutationForLargeDataset_init :: "int \<Rightarrow> int \<Rightarrow> int list \<Rightarrow> int list" where
  "getKPermutationForLargeDataset_init n i availableIndices =
     (if i < n then getKPermutationForLargeDataset_init n (i + 1) (Set_add i availableIndices)
      else availableIndices)"
  by pat_completeness auto
termination
  by (relation "measure (\<lambda>(n, i, availableIndices). nat (n - i))") auto

declare getKPermutationForLargeDataset_init.simps [simp del]

text \<open>
  \<^verbatim>\<open>
  let currentPos = 0;
  let selectedIndex: number | undefined;
  for (const availableIndex of availableIndices) {
    if (currentPos === position) { selectedIndex = availableIndex; break; }
    currentPos++;
  }
  \<close>
  The value is \<open>selectedIndex\<close>, \<open>None\<close> for \<^verbatim>\<open>undefined\<close>.
\<close>

fun getKPermutationForLargeDataset_scan :: "int list \<Rightarrow> int \<Rightarrow> int \<Rightarrow> int option" where
  "getKPermutationForLargeDataset_scan [] currentPos position = None"
| "getKPermutationForLargeDataset_scan (availableIndex # rest) currentPos position =
     (if currentPos = position then Some availableIndex
      else getKPermutationForLargeDataset_scan rest (currentPos + 1) position)"

type_synonym 'a lazy_state = "int \<times> int list \<times> 'a list"

definition getKPermutationForLargeDataset_body ::
  "(int \<Rightarrow> 'a) \<Rightarrow> int \<Rightarrow> int \<Rightarrow> int \<Rightarrow> 'a lazy_state \<Rightarrow> error + 'a lazy_state" where
  "getKPermutationForLargeDataset_body getElementFn n k i s =
     (case s of (index, availableIndices, result) \<Rightarrow>
        let blockSize = permutationCountBig (n - i - 1) (k - i - 1) in
        if blockSize = 0 then Inl BigIntDivisionByZero
        else
          let position = Number (index sdiv blockSize);
              index = index smod blockSize
          in case getKPermutationForLargeDataset_scan availableIndices 0 position of
               None \<Rightarrow> Inl (AlgorithmError position)
             | Some selectedIndex \<Rightarrow>
                 Inr (index,
                      Set_delete selectedIndex availableIndices,
                      result @ [getElementFn selectedIndex]))"

function getKPermutationForLargeDataset_loop ::
  "(int \<Rightarrow> 'a) \<Rightarrow> int \<Rightarrow> int \<Rightarrow> int \<Rightarrow> 'a lazy_state \<Rightarrow> error + 'a lazy_state" where
  "getKPermutationForLargeDataset_loop getElementFn n k i s =
     (if i < k then
        (case getKPermutationForLargeDataset_body getElementFn n k i s of
           Inl e \<Rightarrow> Inl e
         | Inr s' \<Rightarrow> getKPermutationForLargeDataset_loop getElementFn n k (i + 1) s')
      else Inr s)"
  by pat_completeness auto
termination
  by (relation "measure (\<lambda>(getElementFn, n, k, i, s). nat (k - i))") auto

declare getKPermutationForLargeDataset_loop.simps [simp del]

definition getKPermutationForLargeDataset ::
  "(string \<Rightarrow> int option) \<Rightarrow> (int \<Rightarrow> 'a) \<Rightarrow> int \<Rightarrow> int \<Rightarrow> string \<Rightarrow> error + 'a list" where
  "getKPermutationForLargeDataset BigInt getElementFn n k indexStr =
     (if k > n then Inl (KGreaterThanN k n)
      else
        case BigInt indexStr of
          None \<Rightarrow> Inl BigIntSyntaxError
        | Some index \<Rightarrow>
            let totalPermutations = permutationCountBig n k in
            if index < 0 \<or> index \<ge> totalPermutations
            then Inl (IndexOutOfBounds indexStr (totalPermutations - 1))
            else
              (case getKPermutationForLargeDataset_loop getElementFn n k 0
                      (index, getKPermutationForLargeDataset_init n 0 [], []) of
                 Inl e \<Rightarrow> Inl e
               | Inr (index', availableIndices, result) \<Rightarrow> Inr result))"

inductive getKPermutationForLargeDataset_entry ::
  "(int \<Rightarrow> 'a) \<Rightarrow> int \<Rightarrow> int \<Rightarrow> 'a lazy_state \<Rightarrow> int \<Rightarrow> 'a lazy_state \<Rightarrow> bool"
  for getElementFn n k s0 where
    lazy_entry_first: "getKPermutationForLargeDataset_entry getElementFn n k s0 0 s0"
  | lazy_entry_next:
      "getKPermutationForLargeDataset_entry getElementFn n k s0 i s \<Longrightarrow> i < k \<Longrightarrow>
       getKPermutationForLargeDataset_body getElementFn n k i s = Inr s' \<Longrightarrow>
       getKPermutationForLargeDataset_entry getElementFn n k s0 (i + 1) s'"

subsection \<open>Decimal strings\<close>

text \<open>
  The callers write an index with \<^verbatim>\<open>i.toString()\<close>: an optional minus sign and decimal
  digits. \<open>toString\<close> is that function, and \<open>BigInt_decimal\<close> is the conversion on such
  strings (and on those with a plus sign, and on the empty string, which converts to zero).
  The built-in accepts more (surrounding white space, the prefixes \<^verbatim>\<open>0x\<close>, \<^verbatim>\<open>0o\<close> and
  \<^verbatim>\<open>0b\<close>), where \<open>BigInt_decimal\<close> gives \<open>None\<close>; it serves only as an instance of the
  parameter \<open>BigInt\<close> on decimal strings.
\<close>

definition digit_value :: "char \<Rightarrow> int option" where
  "digit_value c =
     (let v = (of_char c :: nat) in if 48 \<le> v \<and> v \<le> 57 then Some (int v - 48) else None)"

fun decimal_digits :: "string \<Rightarrow> int \<Rightarrow> int option" where
  "decimal_digits [] acc = Some acc"
| "decimal_digits (c # cs) acc =
     (case digit_value c of
        None \<Rightarrow> None
      | Some d \<Rightarrow> decimal_digits cs (10 * acc + d))"

definition BigInt_decimal :: "string \<Rightarrow> int option" where
  "BigInt_decimal s =
     (case s of
        [] \<Rightarrow> Some 0
      | c # cs \<Rightarrow>
          if c = CHR ''-'' then (if cs = [] then None else map_option uminus (decimal_digits cs 0))
          else if c = CHR ''+'' then (if cs = [] then None else decimal_digits cs 0)
          else decimal_digits s 0)"

function digits_of :: "nat \<Rightarrow> string" where
  "digits_of m =
     (if m < 10 then [char_of (48 + m)]
      else digits_of (m div 10) @ [char_of (48 + m mod 10)])"
  by pat_completeness auto
termination
  by (relation "measure (\<lambda>m. m)") auto

declare digits_of.simps [simp del]

definition toString :: "int \<Rightarrow> string" where
  "toString i = (if i < 0 then CHR ''-'' # digits_of (nat (- i)) else digits_of (nat i))"

subsection \<open>The selection as a function of the remaining elements\<close>

text \<open>
  What the loops compute, written by recursion on the number \<open>m\<close> of positions still to
  fill: the element at offset \<open>index div blockSize\<close> of the remaining elements \<open>xs\<close>, then
  the selection of \<open>m - 1\<close> elements among the others at \<open>index mod blockSize\<close>. The
  properties of both engines are proved through it.
\<close>

fun select :: "'a list \<Rightarrow> nat \<Rightarrow> int \<Rightarrow> 'a list" where
  "select xs 0 index = []"
| "select xs (Suc m) index =
     (let blockSize = permutationCountBig (int (length xs) - 1) (int m);
          position = nat (index div blockSize)
      in xs ! position
         # select (take position xs @ drop (Suc position) xs) m (index mod blockSize))"

subsection \<open>The dense engine on a store of arrays\<close>

text \<open>
  An array is an object: \<^verbatim>\<open>elements\<close>, \<^verbatim>\<open>availableElements\<close> and \<^verbatim>\<open>result\<close> are
  references, and \<^verbatim>\<open>push\<close> and \<^verbatim>\<open>splice\<close> change the array they are called on. To say
  what a call does to the arrays that exist when it starts, the dense engine is given a
  second time over a store: a list of arrays, an address being a position in it, and each
  array a list of values or \<^verbatim>\<open>undefined\<close>. \<^verbatim>\<open>[...elements]\<close> and \<^verbatim>\<open>[]\<close> allocate a new array
  at the end of the store. A call returns the store together with its outcome, also when
  it throws.
\<close>

type_synonym 'a heap = "'a option list list"

definition heap_alloc :: "'a option list \<Rightarrow> 'a heap \<Rightarrow> nat \<times> 'a heap" where
  "heap_alloc xs h = (length h, h @ [xs])"

definition getLargeKPermutationAtIndex_store_body ::
  "int \<Rightarrow> int \<Rightarrow> int \<Rightarrow> nat \<Rightarrow> nat \<Rightarrow> int \<times> 'a heap \<Rightarrow> (error + int) \<times> 'a heap" where
  "getLargeKPermutationAtIndex_store_body n k i availableElements result s =
     (case s of (index, h) \<Rightarrow>
        let blockSize = permutationCountBig (n - i - 1) (k - i - 1) in
        if blockSize = 0 then (Inl BigIntDivisionByZero, h)
        else
          let position = Number (index sdiv blockSize);
              index = index smod blockSize;
              chosen = (case element_at (h ! availableElements) position of
                          None \<Rightarrow> None
                        | Some v \<Rightarrow> v);
              h = h[result := h ! result @ [chosen]];
              h = h[availableElements := splice1 (h ! availableElements) position]
          in (Inr index, h))"

function getLargeKPermutationAtIndex_store_loop ::
  "int \<Rightarrow> int \<Rightarrow> int \<Rightarrow> nat \<Rightarrow> nat \<Rightarrow> int \<times> 'a heap \<Rightarrow> (error + int) \<times> 'a heap" where
  "getLargeKPermutationAtIndex_store_loop n k i availableElements result s =
     (if i < k then
        (case getLargeKPermutationAtIndex_store_body n k i availableElements result s of
           (Inl e, h) \<Rightarrow> (Inl e, h)
         | (Inr index, h) \<Rightarrow>
             getLargeKPermutationAtIndex_store_loop n k (i + 1) availableElements result
               (index, h))
      else (Inr (fst s), snd s))"
  by pat_completeness auto
termination
  by (relation "measure (\<lambda>(n, k, i, availableElements, result, s). nat (k - i))") auto

declare getLargeKPermutationAtIndex_store_loop.simps [simp del]

definition getLargeKPermutationAtIndex_store ::
  "(string \<Rightarrow> int option) \<Rightarrow> nat \<Rightarrow> int \<Rightarrow> string \<Rightarrow> 'a heap \<Rightarrow> (error + nat) \<times> 'a heap" where
  "getLargeKPermutationAtIndex_store BigInt elements k indexStr h =
     (let n = int (length (h ! elements)) in
      case BigInt indexStr of
        None \<Rightarrow> (Inl BigIntSyntaxError, h)
      | Some index \<Rightarrow>
          if k > n then (Inl (KGreaterThanN k n), h)
          else
            let totalPermutations = permutationCountBig n k in
            if index < 0 \<or> index \<ge> totalPermutations
            then (Inl (IndexOutOfBounds indexStr (totalPermutations - 1)), h)
            else
              (case heap_alloc (h ! elements) h of (availableElements, h) \<Rightarrow>
               case heap_alloc [] h of (result, h) \<Rightarrow>
               case getLargeKPermutationAtIndex_store_loop n k 0 availableElements result
                      (index, h) of
                 (Inl e, h) \<Rightarrow> (Inl e, h)
               | (Inr index', h) \<Rightarrow> (Inr result, h)))"

subsection \<open>Which error a call raises\<close>



section \<open>Properties\<close>

subsection \<open>The counter\<close>

lemma permutationCountBig_loop_prod:
  "i \<le> k \<Longrightarrow> permutationCountBig_loop n k i result = result * (\<Prod>j = i..<k. n - j)"
proof (induction n k i result rule: permutationCountBig_loop.induct)
  case (1 n k i result)
  show ?case
  proof (cases "i < k")
    case True
    have split: "{i..<k} = insert i {i + 1..<k}"
      using True by auto
    have "permutationCountBig_loop n k i result
            = permutationCountBig_loop n k (i + 1) (result * (n - i))"
      using True by (subst permutationCountBig_loop.simps) simp
    also have "\<dots> = result * (n - i) * (\<Prod>j = i + 1..<k. n - j)"
      using "1.IH" [OF True] True by simp
    also have "\<dots> = result * (\<Prod>j = i..<k. n - j)"
      by (simp add: split mult.assoc)
    finally show ?thesis .
  next
    case False
    with "1.prems" have "i = k" by simp
    then show ?thesis
      by (subst permutationCountBig_loop.simps) simp
  qed
qed

lemma permutationCountBig_prod:
  "k \<le> n \<Longrightarrow> 0 \<le> k \<Longrightarrow> permutationCountBig n k = (\<Prod>j = 0..<k. n - j)"
  by (cases "k = 0") (simp_all add: permutationCountBig_def permutationCountBig_loop_prod)

lemma prod_int_interval:
  "(\<Prod>j = 0..<int k. f j) = (\<Prod>j = 0..<k. f (int j))"
proof -
  have "{0..<int k} = int ` {0..<k}"
    by (simp add: image_int_atLeastLessThan)
  then show ?thesis
    by (simp add: prod.reindex)
qed

lemma falling_product_fact:
  "k \<le> n \<Longrightarrow> (\<Prod>j = 0..<k. int n - int j) * fact (n - k) = fact n"
proof (induction k)
  case 0
  then show ?case by simp
next
  case (Suc k)
  then have lt: "0 < n - k" and le: "k \<le> n" by simp_all
  have "fact (n - k) = int (n - k) * fact (n - Suc k)"
    using fact_reduce [OF lt, where ?'a = int] by simp
  then have "(\<Prod>j = 0..<Suc k. int n - int j) * fact (n - Suc k)
               = (\<Prod>j = 0..<k. int n - int j) * fact (n - k)"
    using le by (simp add: of_nat_diff mult.assoc)
  with Suc.IH [OF le] show ?case by simp
qed

lemma falling_product_div:
  assumes "k \<le> n"
  shows "(\<Prod>j = 0..<k. int n - int j) = int (fact n div fact (n - k))"
proof -
  have "int (fact n div fact (n - k)) = fact n div fact (n - k)"
    by (simp add: zdiv_int)
  also have "\<dots> = ((\<Prod>j = 0..<k. int n - int j) * fact (n - k)) div fact (n - k)"
    using falling_product_fact [OF assms] by simp
  also have "\<dots> = (\<Prod>j = 0..<k. int n - int j)"
    by simp
  finally show ?thesis by simp
qed

lemma round_to_double_exact:
  "\<bar>x\<bar> \<le> 9007199254740992 \<Longrightarrow> round_to_double x = x"
  by (simp add: round_to_double_def)

lemma permutationCountBig_double_loop_exact:
  "k - i = int m \<Longrightarrow> 0 \<le> i \<Longrightarrow> k \<le> n \<Longrightarrow> n \<le> 9007199254740992 \<Longrightarrow>
   permutationCountBig_double_loop n k i result = Some (permutationCountBig_loop n k i result)"
proof (induction m arbitrary: i result)
  case 0
  then have "\<not> i < k" by simp
  then show ?case
    by (subst permutationCountBig_double_loop.simps, subst permutationCountBig_loop.simps) simp
next
  case (Suc m)
  have lt: "i < k" using Suc.prems(1) by simp
  have "\<bar>i + 1\<bar> \<le> 9007199254740992" "\<bar>n - i\<bar> \<le> 9007199254740992"
    using lt Suc.prems(2-4) by simp_all
  then have r: "round_to_double (i + 1) = i + 1" "round_to_double (n - i) = n - i"
    by (simp_all only: round_to_double_exact)
  have "permutationCountBig_double_loop n k (i + 1) (result * (n - i))
          = Some (permutationCountBig_loop n k (i + 1) (result * (n - i)))"
    using Suc.prems by (intro Suc.IH) simp_all
  then show ?case
    using lt
    by (subst permutationCountBig_double_loop.simps, subst permutationCountBig_loop.simps)
       (simp add: r)
qed

lemma permutationCountBig_double_exact:
  assumes "n \<le> 9007199254740992"
  shows "permutationCountBig_double n k = Some (permutationCountBig n k)"
proof (cases "0 < k \<and> k \<le> n")
  case True
  then have "k - 0 = int (nat k)" by simp
  from permutationCountBig_double_loop_exact [OF this _ _ assms, of 1] True show ?thesis
    by (simp add: permutationCountBig_double_def permutationCountBig_def)
next
  case False
  then consider "k > n" | "k = 0" "k \<le> n" | "k < 0" "k \<le> n" by linarith
  then show ?thesis
  proof cases
    case 1
    then show ?thesis
      by (simp add: permutationCountBig_double_def permutationCountBig_def)
  next
    case 2
    then show ?thesis
      by (simp add: permutationCountBig_double_def permutationCountBig_def)
  next
    case 3
    then have "\<not> 0 < k" by simp
    then have "permutationCountBig_double_loop n k 0 1 = Some 1"
      by (subst permutationCountBig_double_loop.simps) simp
    moreover from \<open>\<not> 0 < k\<close> have "permutationCountBig_loop n k 0 1 = 1"
      by (subst permutationCountBig_loop.simps) simp
    ultimately show ?thesis
      using 3
      by (simp add: permutationCountBig_double_def permutationCountBig_def)
  qed
qed

text \<open>
  C1, as amended. For \<open>0 \<le> n \<le> 2 ^ 53\<close> and \<open>0 < k \<le> n\<close> the counter returns the
  falling-factorial product \<open>n (n - 1) \<dots> (n - k + 1)\<close>, which is \<open>n! / (n - k)!\<close>; for all
  \<open>n \<ge> 0\<close> and \<open>k \<ge> 0\<close> it returns \<open>0\<close> when \<open>k > n\<close> and \<open>1\<close> when \<open>k = 0\<close>.
\<close>

theorem permutationCountBig_double_correct:
  fixes n k :: nat
  shows "(0 < k \<and> k \<le> n \<and> n \<le> 2 ^ 53 \<longrightarrow>
            permutationCountBig_double (int n) (int k) = Some (\<Prod>j = 0..<k. int n - int j)
          \<and> permutationCountBig_double (int n) (int k)
              = Some (int (fact n div fact (n - k))))
       \<and> (k > n \<longrightarrow> permutationCountBig_double (int n) (int k) = Some 0)
       \<and> permutationCountBig_double (int n) 0 = Some 1"
proof (intro conjI impI)
  assume h: "0 < k \<and> k \<le> n \<and> n \<le> 2 ^ 53"
  then have "int n \<le> int (2 ^ 53)"
    by (simp only: of_nat_le_iff)
  then have b: "int n \<le> 9007199254740992"
    by simp
  have e: "permutationCountBig (int n) (int k) = (\<Prod>j = 0..<k. int n - int j)"
    using h by (simp add: permutationCountBig_prod prod_int_interval)
  show p: "permutationCountBig_double (int n) (int k) = Some (\<Prod>j = 0..<k. int n - int j)"
    using permutationCountBig_double_exact [OF b, of "int k"] by (simp only: e)
  show "permutationCountBig_double (int n) (int k) = Some (int (fact n div fact (n - k)))"
    using p h by (simp add: falling_product_div)
next
  assume "n < k"
  then show "permutationCountBig_double (int n) (int k) = Some 0"
    by (simp add: permutationCountBig_double_def)
next
  show "permutationCountBig_double (int n) 0 = Some 1"
    by (simp add: permutationCountBig_double_def)
qed

theorem permutationCountBig_double_correct_witness:
  "(0::nat) < 2 \<and> (2::nat) \<le> 4 \<and> (4::nat) \<le> 2 ^ 53
   \<and> permutationCountBig_double (int 4) (int 2) = Some (\<Prod>j = 0..<(2::nat). int 4 - int j)
   \<and> permutationCountBig_double (int 4) (int 2) = Some (int (fact 4 div fact (4 - 2)))
   \<and> permutationCountBig_double (int 4) (int 2) = Some 12
   \<and> (5::nat) > 4 \<and> permutationCountBig_double (int 4) (int 5) = Some 0
   \<and> permutationCountBig_double (int 4) 0 = Some 1"
proof -
  have a: "permutationCountBig_double (int 4) (int 2) = Some 12"
    by code_simp
  have b: "(4::nat) \<le> 2 ^ 53"
    by simp
  show ?thesis
    using permutationCountBig_double_correct [of 2 4] permutationCountBig_double_correct [of 5 4]
      a b
    by (simp add: fact_numeral)
qed

text \<open>
  C1 as stated fails beyond \<open>2 ^ 53\<close>: \<open>n = 2 ^ 53 + 2\<close> is a \<^verbatim>\<open>number\<close>, but \<open>n - 1\<close> is
  not and the subtraction gives \<open>2 ^ 53\<close>, so that for \<open>k = 2\<close> the counter returns
  \<open>n (n - 2)\<close> and not \<open>n (n - 1)\<close>.
\<close>

theorem permutationCountBig_double_counterexample:
  "round_to_double 9007199254740994 = 9007199254740994
   \<and> round_to_double (9007199254740994 - 1) = 9007199254740992
   \<and> permutationCountBig_double 9007199254740994 2 = Some 81129638414606699710187514626048
   \<and> permutationCountBig_double 9007199254740994 2
        \<noteq> Some (9007199254740994 * (9007199254740994 - 1))"
proof -
  have a: "round_to_double 9007199254740994 = 9007199254740994"
    "round_to_double 9007199254740993 = 9007199254740992"
    by code_simp+
  have b: "permutationCountBig_double 9007199254740994 2
             = Some 81129638414606699710187514626048"
    by code_simp
  show ?thesis
    by (simp add: a b)
qed

lemma permutationCountBig_pos:
  "0 \<le> k \<Longrightarrow> k \<le> n \<Longrightarrow> 0 < permutationCountBig n k"
proof -
  assume k: "0 \<le> k" "k \<le> n"
  have "0 < (\<Prod>j = 0..<k. n - j)"
    by (rule prod_pos) (use k in auto)
  then show ?thesis
    using k by (simp add: permutationCountBig_prod)
qed

lemma permutationCountBig_zero [simp]: "0 \<le> n \<Longrightarrow> permutationCountBig n 0 = 1"
  by (simp add: permutationCountBig_def)

lemma permutationCountBig_rec:
  assumes "0 < k" "k \<le> n"
  shows "permutationCountBig n k = n * permutationCountBig (n - 1) (k - 1)"
proof -
  have split: "{0..<k} = insert 0 {1..<k}"
    using assms by auto
  have shift: "(\<Prod>j = 1..<k. n - j) = (\<Prod>j = 0..<k - 1. n - 1 - j)"
    by (rule prod.reindex_bij_witness [where i = "\<lambda>j. j + 1" and j = "\<lambda>j. j - 1"]) auto
  have "permutationCountBig n k = (\<Prod>j = 0..<k. n - j)"
    using assms by (simp add: permutationCountBig_prod)
  also have "\<dots> = n * (\<Prod>j = 1..<k. n - j)"
    by (simp add: split)
  also have "\<dots> = n * permutationCountBig (n - 1) (k - 1)"
    using assms by (simp add: shift permutationCountBig_prod)
  finally show ?thesis .
qed

lemma block_bounds:
  assumes "0 < k" "k \<le> n" "0 \<le> index" "index < permutationCountBig n k"
  shows "0 < permutationCountBig (n - 1) (k - 1)"
    and "0 \<le> index div permutationCountBig (n - 1) (k - 1)"
    and "index div permutationCountBig (n - 1) (k - 1) < n"
    and "0 \<le> index mod permutationCountBig (n - 1) (k - 1)"
    and "index mod permutationCountBig (n - 1) (k - 1) < permutationCountBig (n - 1) (k - 1)"
proof -
  let ?b = "permutationCountBig (n - 1) (k - 1)"
  show b: "0 < ?b"
    using assms by (simp add: permutationCountBig_pos)
  show "0 \<le> index div ?b"
    using b assms(3) by (simp add: pos_imp_zdiv_nonneg_iff)
  have "index < n * ?b"
    using assms permutationCountBig_rec [of k n] by simp
  moreover have "index div ?b * ?b \<le> index"
    using b pos_mod_sign [of ?b index] div_mult_mod_eq [of index ?b] by linarith
  moreover have "n * ?b \<le> index div ?b * ?b" if "n \<le> index div ?b"
    using that b by (simp add: mult_right_mono)
  ultimately show "index div ?b < n"
    by (meson leI le_less_trans less_irrefl order_trans)
  show "0 \<le> index mod ?b" "index mod ?b < ?b"
    using b by simp_all
qed

lemma length_select [simp]: "length (select xs m index) = m"
  by (induction m arbitrary: xs index) (simp_all add: Let_def)

lemma sdiv_nonneg: "0 \<le> a \<Longrightarrow> 0 < b \<Longrightarrow> a sdiv b = a div (b::int)"
  by (simp add: signed_divide_int_def sgn_if)

lemma smod_nonneg: "0 \<le> a \<Longrightarrow> 0 < b \<Longrightarrow> a smod b = a mod (b::int)"
  by (simp add: signed_modulo_int_def sgn_if)

lemma element_at_nat: "p < length xs \<Longrightarrow> element_at xs (int p) = Some (xs ! p)"
  by (simp add: element_at_def)

lemma splice1_nat: "p < length xs \<Longrightarrow> splice1 xs (int p) = take p xs @ drop (Suc p) xs"
  by (simp add: splice1_def Let_def min_def nat_add_distrib)

lemma scan_nth:
  "p < length xs \<Longrightarrow>
   getKPermutationForLargeDataset_scan xs c (c + int p) = Some (xs ! p)"
proof (induction xs arbitrary: c p)
  case Nil
  then show ?case by simp
next
  case (Cons x xs)
  show ?case
  proof (cases p)
    case 0
    then show ?thesis by simp
  next
    case (Suc q)
    with Cons.prems have "q < length xs" by simp
    from Cons.IH [OF this, of "c + 1"] Suc show ?thesis
      by (simp add: add.assoc)
  qed
qed

lemma Set_delete_nth:
  "distinct xs \<Longrightarrow> p < length xs \<Longrightarrow> Set_delete (xs ! p) xs = take p xs @ drop (Suc p) xs"
proof -
  assume d: "distinct xs" and p: "p < length xs"
  have xs: "xs = take p xs @ xs ! p # drop (Suc p) xs"
    using p by (simp add: id_take_nth_drop)
  have "xs ! p \<notin> set (take p xs)" "xs ! p \<notin> set (drop (Suc p) xs)"
    using d xs by (metis distinct_append distinct.simps(2) disjoint_iff list.set_intros(1) not_distinct_conv_prefix)+
  then have "removeAll (xs ! p) (take p xs @ xs ! p # drop (Suc p) xs)
               = take p xs @ drop (Suc p) xs"
    by simp
  with xs show ?thesis
    by (simp add: Set_delete_def)
qed

lemma dense_body_select:
  assumes "i < k" "k \<le> n" "int (length avail) = n - i" "0 \<le> index"
    and "index < permutationCountBig (n - i) (k - i)"
  defines "b \<equiv> permutationCountBig (n - i - 1) (k - i - 1)"
  defines "p \<equiv> nat (index div b)"
  shows "getLargeKPermutationAtIndex_body n k i (index, avail, result)
           = Inr (index mod b, take p avail @ drop (Suc p) avail, result @ [Some (avail ! p)])"
    and "p < length avail"
proof -
  have pos: "0 < k - i" and le: "k - i \<le> n - i"
    using assms by simp_all
  note bb = block_bounds [OF pos le assms(4) assms(5)]
  have b: "0 < b" and q: "0 \<le> index div b" "index div b < n - i"
    using bb by (simp_all add: b_def)
  show p: "p < length avail"
    using q assms(3) by (simp add: p_def)
  have ip: "index div b = int p"
    using q by (simp add: p_def)
  show "getLargeKPermutationAtIndex_body n k i (index, avail, result)
           = Inr (index mod b, take p avail @ drop (Suc p) avail, result @ [Some (avail ! p)])"
    using b p
    by (simp add: getLargeKPermutationAtIndex_body_def b_def [symmetric] Let_def Number_def
          sdiv_nonneg [OF assms(4) b] smod_nonneg [OF assms(4) b] ip element_at_nat splice1_nat)
qed

lemma lazy_body_select:
  assumes "i < k" "k \<le> n" "int (length avail) = n - i" "0 \<le> index"
    and "index < permutationCountBig (n - i) (k - i)" and "distinct avail"
  defines "b \<equiv> permutationCountBig (n - i - 1) (k - i - 1)"
  defines "p \<equiv> nat (index div b)"
  shows "getKPermutationForLargeDataset_body getElementFn n k i (index, avail, result)
           = Inr (index mod b, take p avail @ drop (Suc p) avail,
                  result @ [getElementFn (avail ! p)])"
    and "p < length avail"
proof -
  have pos: "0 < k - i" and le: "k - i \<le> n - i"
    using assms by simp_all
  note bb = block_bounds [OF pos le assms(4) assms(5)]
  have b: "0 < b" and q: "0 \<le> index div b" "index div b < n - i"
    using bb by (simp_all add: b_def)
  show p: "p < length avail"
    using q assms(3) by (simp add: p_def)
  have ip: "index div b = int p"
    using q by (simp add: p_def)
  have scan: "getKPermutationForLargeDataset_scan avail 0 (int p) = Some (avail ! p)"
    using scan_nth [OF p, of 0] by simp
  show "getKPermutationForLargeDataset_body getElementFn n k i (index, avail, result)
           = Inr (index mod b, take p avail @ drop (Suc p) avail,
                  result @ [getElementFn (avail ! p)])"
    using b p assms(6)
    by (simp add: getKPermutationForLargeDataset_body_def b_def [symmetric] Let_def Number_def
          sdiv_nonneg [OF assms(4) b] smod_nonneg [OF assms(4) b] ip scan Set_delete_nth)
qed

lemma select_Suc:
  "select xs (Suc m) index =
     xs ! nat (index div permutationCountBig (int (length xs) - 1) (int m))
     # select (take (nat (index div permutationCountBig (int (length xs) - 1) (int m))) xs
               @ drop (Suc (nat (index div permutationCountBig (int (length xs) - 1) (int m)))) xs)
         m (index mod permutationCountBig (int (length xs) - 1) (int m))"
  by (simp add: Let_def)

lemma length_remove_nth:
  "p < length xs \<Longrightarrow> int (length (take p xs @ drop (Suc p) xs)) = int (length xs) - 1"
  by auto

lemma dense_loop_select:
  assumes "k - i = int m" "k \<le> n" "int (length avail) = n - i" "0 \<le> index"
    and "index < permutationCountBig (n - i) (k - i)"
  shows "\<exists>index' avail'. getLargeKPermutationAtIndex_loop n k i (index, avail, result)
           = Inr (index', avail', result @ map Some (select avail m index))"
  using assms
proof (induction m arbitrary: i index avail result)
  case 0
  then show ?case
    by (subst getLargeKPermutationAtIndex_loop.simps) simp
next
  case (Suc m)
  let ?b = "permutationCountBig (n - i - 1) (k - i - 1)"
  let ?p = "nat (index div ?b)"
  let ?rest = "take ?p avail @ drop (Suc ?p) avail"
  have lt: "i < k" using Suc.prems(1) by simp
  note body = dense_body_select [OF lt Suc.prems(2-5)]
  have pos: "0 < k - i" and le: "k - i \<le> n - i"
    using lt Suc.prems(2) by simp_all
  note bb = block_bounds [OF pos le Suc.prems(4) Suc.prems(5)]
  have km: "k - (i + 1) = int m" using Suc.prems(1) by simp
  have len: "int (length ?rest) = n - (i + 1)"
    using length_remove_nth [OF body(2)] Suc.prems(3) by simp
  have b_eq: "permutationCountBig (int (length avail) - 1) (int m) = ?b"
  proof -
    have "int (length avail) - 1 = n - i - 1" "int m = k - i - 1"
      using Suc.prems(1,3) by linarith+
    then show ?thesis by (simp only:)
  qed
  have sel: "select avail (Suc m) index = avail ! ?p # select ?rest m (index mod ?b)"
    unfolding select_Suc b_eq ..
  have "\<exists>index' avail'. getLargeKPermutationAtIndex_loop n k (i + 1)
          (index mod ?b, ?rest, result @ [Some (avail ! ?p)])
           = Inr (index', avail',
                  (result @ [Some (avail ! ?p)]) @ map Some (select ?rest m (index mod ?b)))"
    using bb(4,5) by (intro Suc.IH [OF km Suc.prems(2) len]) (simp_all add: diff_diff_eq)
  then obtain index' avail' where rec:
    "getLargeKPermutationAtIndex_loop n k (i + 1)
          (index mod ?b, ?rest, result @ [Some (avail ! ?p)])
       = Inr (index', avail',
              (result @ [Some (avail ! ?p)]) @ map Some (select ?rest m (index mod ?b)))"
    by blast
  have "getLargeKPermutationAtIndex_loop n k i (index, avail, result)
          = getLargeKPermutationAtIndex_loop n k (i + 1)
              (index mod ?b, ?rest, result @ [Some (avail ! ?p)])"
    using lt body(1) by (subst getLargeKPermutationAtIndex_loop.simps) simp
  then show ?case
    using rec by (simp add: sel del: select.simps)
qed

lemma distinct_remove_nth:
  "distinct xs \<Longrightarrow> distinct (take p xs @ drop (Suc p) xs)"
proof -
  assume "distinct xs"
  then have "distinct (take p xs @ drop p xs)" by simp
  then show ?thesis
    by (auto dest: in_set_dropD simp: set_take_disj_set_drop_if_distinct)
qed

lemma lazy_loop_select:
  assumes "k - i = int m" "k \<le> n" "int (length avail) = n - i" "0 \<le> index"
    and "index < permutationCountBig (n - i) (k - i)" and "distinct avail"
  shows "\<exists>index' avail'.
           getKPermutationForLargeDataset_loop getElementFn n k i (index, avail, result)
           = Inr (index', avail', result @ map getElementFn (select avail m index))"
  using assms
proof (induction m arbitrary: i index avail result)
  case 0
  then show ?case
    by (subst getKPermutationForLargeDataset_loop.simps) simp
next
  case (Suc m)
  let ?b = "permutationCountBig (n - i - 1) (k - i - 1)"
  let ?p = "nat (index div ?b)"
  let ?rest = "take ?p avail @ drop (Suc ?p) avail"
  have lt: "i < k" using Suc.prems(1) by simp
  note body = lazy_body_select [OF lt Suc.prems(2-6)]
  have pos: "0 < k - i" and le: "k - i \<le> n - i"
    using lt Suc.prems(2) by simp_all
  note bb = block_bounds [OF pos le Suc.prems(4) Suc.prems(5)]
  have km: "k - (i + 1) = int m" using Suc.prems(1) by simp
  have len: "int (length ?rest) = n - (i + 1)"
    using length_remove_nth [OF body(2)] Suc.prems(3) by simp
  have dist: "distinct ?rest"
    using Suc.prems(6) by (rule distinct_remove_nth)
  have b_eq: "permutationCountBig (int (length avail) - 1) (int m) = ?b"
  proof -
    have "int (length avail) - 1 = n - i - 1" "int m = k - i - 1"
      using Suc.prems(1,3) by linarith+
    then show ?thesis by (simp only:)
  qed
  have sel: "select avail (Suc m) index = avail ! ?p # select ?rest m (index mod ?b)"
    unfolding select_Suc b_eq ..
  have "\<exists>index' avail'. getKPermutationForLargeDataset_loop getElementFn n k (i + 1)
          (index mod ?b, ?rest, result @ [getElementFn (avail ! ?p)])
           = Inr (index', avail',
                  (result @ [getElementFn (avail ! ?p)])
                  @ map getElementFn (select ?rest m (index mod ?b)))"
    using bb(4,5) dist
    by (intro Suc.IH [OF km Suc.prems(2) len]) (simp_all add: diff_diff_eq)
  then obtain index' avail' where rec:
    "getKPermutationForLargeDataset_loop getElementFn n k (i + 1)
          (index mod ?b, ?rest, result @ [getElementFn (avail ! ?p)])
       = Inr (index', avail',
              (result @ [getElementFn (avail ! ?p)])
              @ map getElementFn (select ?rest m (index mod ?b)))"
    by blast
  have "getKPermutationForLargeDataset_loop getElementFn n k i (index, avail, result)
          = getKPermutationForLargeDataset_loop getElementFn n k (i + 1)
              (index mod ?b, ?rest, result @ [getElementFn (avail ! ?p)])"
    using lt body(1) [where getElementFn = getElementFn and result = result]
    by (subst getKPermutationForLargeDataset_loop.simps) simp
  then show ?case
    using rec by (simp add: sel del: select.simps)
qed

lemma init_upto:
  "0 \<le> i \<Longrightarrow>
   getKPermutationForLargeDataset_init n i [0..i - 1] = (if i \<le> n then [0..n - 1] else [0..i - 1])"
proof (induction n i "[0..i - 1]" rule: getKPermutationForLargeDataset_init.induct)
  case (1 n i)
  show ?case
  proof (cases "i < n")
    case True
    have add: "Set_add i [0..i - 1] = [0..(i + 1) - 1]"
      using "1.prems" upto_rec2 [of 0 i] by (simp add: Set_add_def)
    have "getKPermutationForLargeDataset_init n i [0..i - 1]
            = getKPermutationForLargeDataset_init n (i + 1) [0..(i + 1) - 1]"
      using True by (subst getKPermutationForLargeDataset_init.simps) (simp only: add if_True)
    also have "\<dots> = [0..n - 1]"
      using "1.hyps" [OF True add] True "1.prems" by simp
    finally show ?thesis using True by simp
  next
    case False
    then show ?thesis
      by (subst getKPermutationForLargeDataset_init.simps) auto
  qed
qed

lemma init_all: "getKPermutationForLargeDataset_init n 0 [] = [0..n - 1]"
  using init_upto [of 0 n] by (cases "0 \<le> n") simp_all

lemma dense_result:
  assumes "BigInt indexStr = Some index" "0 \<le> k" "k \<le> int (length elements)"
    and "0 \<le> index" "index < permutationCountBig (int (length elements)) k"
  shows "getLargeKPermutationAtIndex BigInt elements k indexStr
           = Inr (map Some (select elements (nat k) index))"
proof -
  have "\<exists>index' avail'.
          getLargeKPermutationAtIndex_loop (int (length elements)) k 0 (index, elements, [])
            = Inr (index', avail', [] @ map Some (select elements (nat k) index))"
    using assms by (intro dense_loop_select) simp_all
  then show ?thesis
    using assms by (auto simp: getLargeKPermutationAtIndex_def Let_def)
qed

lemma lazy_result:
  assumes "BigInt indexStr = Some index" "0 \<le> k" "k \<le> n"
    and "0 \<le> index" "index < permutationCountBig n k"
  shows "getKPermutationForLargeDataset BigInt getElementFn n k indexStr
           = Inr (map getElementFn (select [0..n - 1] (nat k) index))"
proof -
  have "\<exists>index' avail'.
          getKPermutationForLargeDataset_loop getElementFn n k 0 (index, [0..n - 1], [])
            = Inr (index', avail', [] @ map getElementFn (select [0..n - 1] (nat k) index))"
    using assms by (intro lazy_loop_select) simp_all
  then show ?thesis
    using assms by (auto simp: getKPermutationForLargeDataset_def Let_def init_all)
qed

declare select.simps(2) [simp del]

lemma select_step:
  assumes "Suc m \<le> length xs" "0 \<le> index"
    and "index < permutationCountBig (int (length xs)) (int (Suc m))"
  defines "b \<equiv> permutationCountBig (int (length xs) - 1) (int m)"
  defines "p \<equiv> nat (index div b)"
  shows "select xs (Suc m) index
           = xs ! p # select (take p xs @ drop (Suc p) xs) m (index mod b)"
    and "p < length xs"
    and "m \<le> length (take p xs @ drop (Suc p) xs)"
    and "0 \<le> index mod b"
    and "index mod b < permutationCountBig (int (length (take p xs @ drop (Suc p) xs))) (int m)"
    and "0 < b" and "index = int p * b + index mod b"
proof -
  have pos: "0 < int (Suc m)" and le: "int (Suc m) \<le> int (length xs)"
    using assms(1) by simp_all
  have b': "permutationCountBig (int (length xs) - 1) (int (Suc m) - 1) = b"
    by (simp add: b_def)
  note bb = block_bounds [OF pos le assms(2,3), unfolded b']
  show "select xs (Suc m) index
           = xs ! p # select (take p xs @ drop (Suc p) xs) m (index mod b)"
    by (simp add: select_Suc b_def p_def)
  show p: "p < length xs"
    using bb(2,3) by (simp add: p_def)
  show "m \<le> length (take p xs @ drop (Suc p) xs)"
    using assms(1) p by simp
  show "0 \<le> index mod b" by (rule bb(4))
  have "int (length (take p xs @ drop (Suc p) xs)) = int (length xs) - 1"
    using p by (rule length_remove_nth)
  then show "index mod b
               < permutationCountBig (int (length (take p xs @ drop (Suc p) xs))) (int m)"
    using bb(5) by (simp only: b_def)
  show "0 < b" by (rule bb(1))
  have "index div b = int p"
    using bb(2) by (simp add: p_def)
  then show "index = int p * b + index mod b"
    using div_mult_mod_eq [of index b] by simp
qed

lemma select_map:
  "m \<le> length xs \<Longrightarrow> 0 \<le> index \<Longrightarrow>
   index < permutationCountBig (int (length xs)) (int m) \<Longrightarrow>
   select (map f xs) m index = map f (select xs m index)"
proof (induction m arbitrary: xs index)
  case 0
  then show ?case by simp
next
  case (Suc m)
  note st = select_step [OF Suc.prems]
  have "select (map f xs) (Suc m) index
          = map f xs ! nat (index div permutationCountBig (int (length xs) - 1) (int m))
            # select (map f (take (nat (index div permutationCountBig (int (length xs) - 1) (int m))) xs
                        @ drop (Suc (nat (index div permutationCountBig (int (length xs) - 1) (int m)))) xs))
                m (index mod permutationCountBig (int (length xs) - 1) (int m))"
    by (simp add: select_Suc take_map drop_map)
  also have "\<dots> = map f (select xs (Suc m) index)"
    using st(2) Suc.IH [OF st(3,4,5)] by (simp add: st(1))
  finally show ?case .
qed

lemma select_subset_distinct:
  "m \<le> length xs \<Longrightarrow> 0 \<le> index \<Longrightarrow>
   index < permutationCountBig (int (length xs)) (int m) \<Longrightarrow>
   set (select xs m index) \<subseteq> set xs \<and> (distinct xs \<longrightarrow> distinct (select xs m index))"
proof (induction m arbitrary: xs index)
  case 0
  then show ?case by simp
next
  case (Suc m)
  let ?b = "permutationCountBig (int (length xs) - 1) (int m)"
  let ?p = "nat (index div ?b)"
  let ?rest = "take ?p xs @ drop (Suc ?p) xs"
  note st = select_step [OF Suc.prems]
  note ih = Suc.IH [OF st(3,4,5)]
  have rest: "set ?rest \<subseteq> set xs"
    by (auto dest: in_set_takeD in_set_dropD)
  have notin: "xs ! ?p \<notin> set ?rest" if "distinct xs"
  proof -
    have "xs = take ?p xs @ xs ! ?p # drop (Suc ?p) xs"
      using st(2) by (simp add: id_take_nth_drop)
    then have "distinct (take ?p xs @ xs ! ?p # drop (Suc ?p) xs)"
      using that by simp
    then show ?thesis by auto
  qed
  have "set (select xs (Suc m) index) \<subseteq> set xs"
    using st(2) ih rest by (auto simp: st(1))
  moreover have "distinct (select xs (Suc m) index)" if "distinct xs"
    using that ih notin [OF that] distinct_remove_nth [OF that, of ?p] by (auto simp: st(1))
  ultimately show ?case by blast
qed

lemma select_inj:
  "distinct xs \<Longrightarrow> m \<le> length xs \<Longrightarrow>
   0 \<le> a \<Longrightarrow> a < permutationCountBig (int (length xs)) (int m) \<Longrightarrow>
   0 \<le> b \<Longrightarrow> b < permutationCountBig (int (length xs)) (int m) \<Longrightarrow>
   select xs m a = select xs m b \<Longrightarrow> a = b"
proof (induction m arbitrary: xs a b)
  case 0
  then show ?case by simp
next
  case (Suc m)
  let ?c = "permutationCountBig (int (length xs) - 1) (int m)"
  let ?p = "nat (a div ?c)"
  let ?q = "nat (b div ?c)"
  note sa = select_step [OF Suc.prems(2,3,4)]
  note sb = select_step [OF Suc.prems(2,5,6)]
  from Suc.prems(7) have hd: "xs ! ?p = xs ! ?q"
    and tl: "select (take ?p xs @ drop (Suc ?p) xs) m (a mod ?c)
               = select (take ?q xs @ drop (Suc ?q) xs) m (b mod ?c)"
    by (simp_all add: sa(1) sb(1))
  from hd have pq: "?p = ?q"
    using Suc.prems(1) sa(2) sb(2) by (simp add: nth_eq_iff_index_eq)
  have "a mod ?c = b mod ?c"
  proof (rule Suc.IH [OF distinct_remove_nth [OF Suc.prems(1), of ?p] sa(3,4,5)])
    show "0 \<le> b mod ?c" by (rule sb(4))
    show "b mod ?c < permutationCountBig (int (length (take ?p xs @ drop (Suc ?p) xs))) (int m)"
      using sb(5) by (simp only: pq)
    show "select (take ?p xs @ drop (Suc ?p) xs) m (a mod ?c)
            = select (take ?p xs @ drop (Suc ?p) xs) m (b mod ?c)"
      using tl by (simp only: pq)
  qed
  then show ?case
    using sa(7) sb(7) pq by simp
qed

lemma select_zero: "m \<le> length xs \<Longrightarrow> select xs m 0 = take m xs"
proof (induction m arbitrary: xs)
  case 0
  then show ?case by simp
next
  case (Suc m)
  then obtain y ys where xs: "xs = y # ys"
    by (cases xs) auto
  with Suc show ?case
    by (simp add: select_Suc)
qed

lemma permutationCountBig_nat_prod:
  assumes "m \<le> n"
  shows "permutationCountBig (int n) (int m) = int (\<Prod>{n - m + 1..n})"
proof -
  have "permutationCountBig (int n) (int m) = (\<Prod>j = 0..<m. int n - int j)"
    using assms by (simp add: permutationCountBig_prod prod_int_interval)
  also have "\<dots> = int (fact n div fact (n - m))"
    using assms by (rule falling_product_div)
  also have "fact n div fact (n - m) = \<Prod>{n - m + 1..n}"
    by (rule fact_div_fact) simp
  finally show ?thesis .
qed

lemma card_k_permutations:
  assumes "distinct xs" "m \<le> length xs"
  shows "int (card {ys. length ys = m \<and> distinct ys \<and> set ys \<subseteq> set xs})
           = permutationCountBig (int (length xs)) (int m)"
proof -
  have c: "card (set xs) = length xs"
    using assms(1) by (rule distinct_card)
  have "card {ys. length ys = m \<and> distinct ys \<and> set ys \<subseteq> set xs}
          = \<Prod>{card (set xs) - m + 1..card (set xs)}"
    using assms(2) c by (intro card_lists_distinct_length_eq) simp_all
  then show ?thesis
    using assms(2) by (simp add: c permutationCountBig_nat_prod)
qed

lemma finite_k_permutations:
  "finite {ys. length ys = m \<and> distinct ys \<and> set ys \<subseteq> set xs}"
proof -
  have "{ys. length ys = m \<and> distinct ys \<and> set ys \<subseteq> set xs}
          \<subseteq> {ys. set ys \<subseteq> set xs \<and> length ys = m}"
    by auto
  then show ?thesis
    by (rule finite_subset) (simp add: finite_lists_length_eq)
qed

lemma select_bij_betw:
  assumes "distinct xs" "m \<le> length xs"
  shows "bij_betw (select xs m) {0..<permutationCountBig (int (length xs)) (int m)}
           {ys. length ys = m \<and> distinct ys \<and> set ys \<subseteq> set xs}"
proof -
  let ?A = "{0..<permutationCountBig (int (length xs)) (int m)}"
  let ?B = "{ys. length ys = m \<and> distinct ys \<and> set ys \<subseteq> set xs}"
  have inj: "inj_on (select xs m) ?A"
    using assms by (auto intro!: inj_onI elim: select_inj)
  have sub: "select xs m ` ?A \<subseteq> ?B"
  proof
    fix ys
    assume "ys \<in> select xs m ` ?A"
    then obtain index where i: "0 \<le> index"
        "index < permutationCountBig (int (length xs)) (int m)" and ys: "ys = select xs m index"
      by auto
    from select_subset_distinct [OF assms(2) i] assms(1) show "ys \<in> ?B"
      by (simp add: ys)
  qed
  have "card (select xs m ` ?A) = card ?A"
    using inj by (rule card_image)
  also have "\<dots> = nat (permutationCountBig (int (length xs)) (int m))"
    by simp
  also have "\<dots> = card ?B"
    using card_k_permutations [OF assms] by simp
  finally have "select xs m ` ?A = ?B"
    using sub finite_k_permutations [of m xs] by (intro card_subset_eq) simp_all
  with inj show ?thesis
    by (simp add: bij_betw_def)
qed

text \<open>
  C2. For a universe of \<open>n\<close> distinct elements and \<open>0 \<le> k \<le> n\<close>, the dense engine is a
  bijection from the indices \<open>0 \<le> index < permutationCountBig n k\<close> onto the sequences of
  \<open>k\<close> distinct elements of the universe: two different indices in range give different
  sequences, and every such sequence is the result at exactly one index. The indices are
  passed as strings \<open>toStr index\<close> that \<open>BigInt\<close> converts back.
\<close>

theorem getLargeKPermutationAtIndex_bijection:
  assumes "distinct elements" "0 \<le> k" "k \<le> int (length elements)"
    and "\<forall>index \<in> {0..<permutationCountBig (int (length elements)) k}.
           BigInt (toStr index) = Some index"
  shows "bij_betw (\<lambda>index. getLargeKPermutationAtIndex BigInt elements k (toStr index))
           {0..<permutationCountBig (int (length elements)) k}
           {Inr (map Some ys) | ys.
              length ys = nat k \<and> distinct ys \<and> set ys \<subseteq> set elements}"
proof -
  let ?A = "{0..<permutationCountBig (int (length elements)) k}"
  let ?B = "{ys. length ys = nat k \<and> distinct ys \<and> set ys \<subseteq> set elements}"
  let ?wrap = "\<lambda>ys :: 'a list. (Inr (map Some ys) :: error + 'a option list)"
  have k: "int (nat k) = k" "nat k \<le> length elements"
    using assms(2,3) by simp_all
  have "bij_betw (select elements (nat k)) ?A ?B"
    using select_bij_betw [OF assms(1) k(2)] by (simp only: k(1))
  moreover have "bij_betw ?wrap ?B (?wrap ` ?B)"
    by (rule inj_on_imp_bij_betw) (auto intro!: inj_onI)
  ultimately have "bij_betw (?wrap \<circ> select elements (nat k)) ?A (?wrap ` ?B)"
    by (rule bij_betw_trans)
  moreover have "?wrap ` ?B = {Inr (map Some ys) | ys.
      length ys = nat k \<and> distinct ys \<and> set ys \<subseteq> set elements}"
    by auto
  ultimately have comp: "bij_betw (?wrap \<circ> select elements (nat k)) ?A
      {Inr (map Some ys) | ys. length ys = nat k \<and> distinct ys \<and> set ys \<subseteq> set elements}"
    by (simp only:)
  have "getLargeKPermutationAtIndex BigInt elements k (toStr index)
          = (?wrap \<circ> select elements (nat k)) index" if "index \<in> ?A" for index
    using that assms(2,3,4) by (simp add: dense_result)
  then have "bij_betw (\<lambda>index. getLargeKPermutationAtIndex BigInt elements k (toStr index)) ?A
      {Inr (map Some ys) | ys. length ys = nat k \<and> distinct ys \<and> set ys \<subseteq> set elements}
    = bij_betw (?wrap \<circ> select elements (nat k)) ?A
      {Inr (map Some ys) | ys. length ys = nat k \<and> distinct ys \<and> set ys \<subseteq> set elements}"
    by (rule bij_betw_cong)
  with comp show ?thesis
    by (simp only:)
qed

theorem getLargeKPermutationAtIndex_bijection_witness:
  "distinct [''a'', ''b''] \<and> (0::int) \<le> 1 \<and> 1 \<le> int (length [''a'', ''b''])
   \<and> {0..<permutationCountBig (int (length [''a'', ''b''])) 1} = {0, 1}
   \<and> BigInt_decimal (toString 0) = Some 0 \<and> BigInt_decimal (toString 1) = Some 1
   \<and> bij_betw (\<lambda>index. getLargeKPermutationAtIndex BigInt_decimal [''a'', ''b''] 1 (toString index))
        {0..<permutationCountBig (int (length [''a'', ''b''])) 1}
        {Inr (map Some ys) | ys.
           length ys = nat 1 \<and> distinct ys \<and> set ys \<subseteq> set [''a'', ''b'']}"
proof -
  have d: "distinct [''a'', ''b'']" by simp
  have k: "(0::int) \<le> 1" "1 \<le> int (length [''a'', ''b''])" by simp_all
  have p: "permutationCountBig 2 1 = 2" by code_simp
  have "{0..<2} = {0, 1::int}" by auto
  then have s: "{0..<permutationCountBig (int (length [''a'', ''b''])) 1} = {0, 1}"
    by (simp add: p)
  have c: "BigInt_decimal (toString 0) = Some 0" "BigInt_decimal (toString 1) = Some 1"
    by code_simp+
  have r: "\<forall>index \<in> {0..<permutationCountBig (int (length [''a'', ''b''])) 1}.
         BigInt_decimal (toString index) = Some index"
    using c by (simp only: s) simp
  from d k s c getLargeKPermutationAtIndex_bijection [OF d k r] show ?thesis
    by (intro conjI) assumption+
qed

lemma map_nth_upto_int:
  "map (\<lambda>i. xs ! nat i) [0..int (length xs) - 1] = xs"
  by (rule nth_equalityI) simp_all

lemma select_identities:
  assumes "0 \<le> k" "k \<le> n" "0 \<le> index" "index < permutationCountBig n k"
  shows "length (select [0..n - 1] (nat k) index) = nat k"
    and "distinct (select [0..n - 1] (nat k) index)"
    and "set (select [0..n - 1] (nat k) index) \<subseteq> {0..n - 1}"
proof -
  have n: "0 \<le> n" using assms by simp
  have len: "int (length [0..n - 1]) = n"
    using n by simp
  have "nat k \<le> length [0..n - 1]"
    using assms by simp
  moreover have "index < permutationCountBig (int (length [0..n - 1])) (int (nat k))"
    using assms by (simp only: len) simp
  ultimately have "set (select [0..n - 1] (nat k) index) \<subseteq> set [0..n - 1]
      \<and> (distinct [0..n - 1] \<longrightarrow> distinct (select [0..n - 1] (nat k) index))"
    using assms(3) by (intro select_subset_distinct)
  then show "distinct (select [0..n - 1] (nat k) index)"
    and "set (select [0..n - 1] (nat k) index) \<subseteq> {0..n - 1}"
    by simp_all
  show "length (select [0..n - 1] (nat k) index) = nat k"
    by simp
qed

lemma select_by_identities:
  assumes "0 \<le> k" "k \<le> int (length xs)" "0 \<le> index"
    and "index < permutationCountBig (int (length xs)) k"
  shows "select xs (nat k) index
           = map (\<lambda>i. xs ! nat i) (select [0..int (length xs) - 1] (nat k) index)"
proof -
  let ?ids = "[0..int (length xs) - 1]"
  have len: "int (length ?ids) = int (length xs)"
    by simp
  have "nat k \<le> length ?ids"
    using assms by simp
  moreover have "index < permutationCountBig (int (length ?ids)) (int (nat k))"
    using assms by (simp only: len) simp
  ultimately have "select (map (\<lambda>i. xs ! nat i) ?ids) (nat k) index
                     = map (\<lambda>i. xs ! nat i) (select ?ids (nat k) index)"
    using assms(3) by (intro select_map)
  then show ?thesis
    by (simp only: map_nth_upto_int)
qed

lemma lazy_eq_dense:
  assumes "BigInt indexStr = Some index" "0 \<le> k" "k \<le> int (length elements)"
    and "0 \<le> index" "index < permutationCountBig (int (length elements)) k"
  shows "getKPermutationForLargeDataset BigInt (element_at elements) (int (length elements)) k indexStr
           = getLargeKPermutationAtIndex BigInt elements k indexStr"
proof -
  let ?ids = "select [0..int (length elements) - 1] (nat k) index"
  have "set ?ids \<subseteq> {0..int (length elements) - 1}"
    using assms(2-5) by (rule select_identities(3))
  then have "map (element_at elements) ?ids = map Some (map (\<lambda>i. elements ! nat i) ?ids)"
    by (auto simp: element_at_def)
  also have "\<dots> = map Some (select elements (nat k) index)"
    using select_by_identities [OF assms(2-5)] by (simp only:)
  finally show ?thesis
    using assms by (simp only: lazy_result dense_result)
qed

lemma lazy_body_sorted:
  assumes "getKPermutationForLargeDataset_body getElementFn n k i (index, avail, result)
             = Inr (index', avail', result')"
    and "sorted_wrt (<) avail"
  shows "sorted_wrt (<) avail'"
proof -
  from assms(1) obtain v where "avail' = Set_delete v avail"
    by (auto simp: getKPermutationForLargeDataset_body_def Let_def
             split: if_splits option.splits)
  then have "avail' = filter (\<lambda>x. x \<noteq> v) avail"
    by (simp add: Set_delete_def removeAll_filter_not_eq) (metis (mono_tags, lifting) filter_cong)
  with assms(2) show ?thesis
    by (simp add: sorted_wrt_filter)
qed

lemma lazy_entry_sorted:
  assumes "getKPermutationForLargeDataset_entry getElementFn n k s0 i s"
    and "sorted_wrt (<) (fst (snd s0))"
  shows "sorted_wrt (<) (fst (snd s))"
  using assms
proof (induction rule: getKPermutationForLargeDataset_entry.induct)
  case lazy_entry_first
  then show ?case by simp
next
  case (lazy_entry_next i s s')
  obtain index avail result where s: "s = (index, avail, result)"
    by (cases s)
  obtain index' avail' result' where s': "s' = (index', avail', result')"
    by (cases s')
  from lazy_entry_next show ?case
    using lazy_body_sorted [of getElementFn n k i index avail result index' avail' result']
    by (simp add: s s')
qed

text \<open>
  C3. For a universe \<open>U\<close> of length \<open>n\<close>, \<open>0 \<le> k \<le> n\<close> and an index in range, the lazy engine
  called with the lookup \<open>i \<mapsto> U[i]\<close> returns the same sequence as the dense engine on \<open>U\<close>,
  element for element; and each time the lazy loop reaches its test, the working set
  \<^verbatim>\<open>availableIndices\<close> iterates in strictly ascending order of the identities.
\<close>

theorem getKPermutationForLargeDataset_agrees_with_dense:
  assumes "BigInt indexStr = Some index" "0 \<le> k" "k \<le> int (length U)"
    and "0 \<le> index" "index < permutationCountBig (int (length U)) k"
  shows "getKPermutationForLargeDataset BigInt (element_at U) (int (length U)) k indexStr
           = getLargeKPermutationAtIndex BigInt U k indexStr
       \<and> (\<forall>i s. getKPermutationForLargeDataset_entry (element_at U) (int (length U)) k
                   (index, getKPermutationForLargeDataset_init (int (length U)) 0 [], []) i s
                 \<longrightarrow> sorted_wrt (<) (fst (snd s)))"
proof (intro conjI allI impI)
  show "getKPermutationForLargeDataset BigInt (element_at U) (int (length U)) k indexStr
           = getLargeKPermutationAtIndex BigInt U k indexStr"
    using assms by (rule lazy_eq_dense)
next
  fix i s
  assume "getKPermutationForLargeDataset_entry (element_at U) (int (length U)) k
            (index, getKPermutationForLargeDataset_init (int (length U)) 0 [], []) i s"
  then show "sorted_wrt (<) (fst (snd s))"
    by (rule lazy_entry_sorted) (simp add: init_all)
qed

theorem getKPermutationForLargeDataset_agrees_with_dense_witness:
  "BigInt_decimal ''11'' = Some 11 \<and> (0::int) \<le> 2 \<and> 2 \<le> int (length [''a'', ''b'', ''c'', ''d''])
   \<and> (0::int) \<le> 11 \<and> 11 < permutationCountBig (int (length [''a'', ''b'', ''c'', ''d''])) 2
   \<and> getKPermutationForLargeDataset BigInt_decimal (element_at [''a'', ''b'', ''c'', ''d''])
        (int (length [''a'', ''b'', ''c'', ''d''])) 2 ''11''
      = getLargeKPermutationAtIndex BigInt_decimal [''a'', ''b'', ''c'', ''d''] 2 ''11''
   \<and> getLargeKPermutationAtIndex BigInt_decimal [''a'', ''b'', ''c'', ''d''] 2 ''11''
      = Inr [Some ''d'', Some ''c'']
   \<and> getKPermutationForLargeDataset_entry (element_at [''a'', ''b'', ''c'', ''d''])
        (int (length [''a'', ''b'', ''c'', ''d''])) 2
        (11, getKPermutationForLargeDataset_init (int (length [''a'', ''b'', ''c'', ''d''])) 0 [], [])
        (0 + 1) (2, [0, 1, 2], [Some ''d''])
   \<and> sorted_wrt (<) (fst (snd (2 :: int, [0, 1, 2 :: int], [Some ''d''])))"
proof -
  let ?U = "[''a'', ''b'', ''c'', ''d'']"
  let ?s0 = "(11 :: int, getKPermutationForLargeDataset_init (int (length ?U)) 0 [],
              [] :: string option list)"
  have h1: "BigInt_decimal ''11'' = Some 11" by code_simp
  have h2: "(0::int) \<le> 2" "2 \<le> int (length ?U)" "(0::int) \<le> 11" by simp_all
  have h3: "11 < permutationCountBig (int (length ?U)) 2" by code_simp
  have r: "getLargeKPermutationAtIndex BigInt_decimal ?U 2 ''11'' = Inr [Some ''d'', Some ''c'']"
    by code_simp
  have body: "getKPermutationForLargeDataset_body (element_at ?U) (int (length ?U)) 2 0 ?s0
                = Inr (2, [0, 1, 2], [Some ''d''])"
    by code_simp
  have e: "getKPermutationForLargeDataset_entry (element_at ?U) (int (length ?U)) 2 ?s0
             (0 + 1) (2, [0, 1, 2], [Some ''d''])"
    by (rule lazy_entry_next [OF lazy_entry_first _ body]) simp
  note t = getKPermutationForLargeDataset_agrees_with_dense
    [where BigInt = BigInt_decimal and indexStr = "''11''", OF h1 h2 h3]
  from t have "getKPermutationForLargeDataset BigInt_decimal (element_at ?U) (int (length ?U)) 2 ''11''
      = getLargeKPermutationAtIndex BigInt_decimal ?U 2 ''11''"
    by (rule conjunct1)
  moreover from t e have "sorted_wrt (<) (fst (snd (2 :: int, [0, 1, 2 :: int], [Some ''d''])))"
    by blast
  ultimately show ?thesis
    using h1 h2 h3 r e by (intro conjI) assumption+
qed




lemma dense_loop_no_division_by_zero:
  "0 \<le> i \<Longrightarrow> k \<le> n \<Longrightarrow>
   getLargeKPermutationAtIndex_loop n k i s \<noteq> Inl BigIntDivisionByZero"
proof (induction n k i s rule: getLargeKPermutationAtIndex_loop.induct)
  case (1 n k i s)
  show ?case
  proof (cases "i < k")
    case True
    obtain index avail result where s: "s = (index, avail, result)"
      by (cases s)
    have "0 < permutationCountBig (n - i - 1) (k - i - 1)"
      using True "1.prems" by (intro permutationCountBig_pos) simp_all
    then obtain s' where body: "getLargeKPermutationAtIndex_body n k i s = Inr s'"
      by (simp add: getLargeKPermutationAtIndex_body_def s Let_def)
    have "getLargeKPermutationAtIndex_loop n k (i + 1) s' \<noteq> Inl BigIntDivisionByZero"
      using "1.IH" [OF True body] "1.prems" by simp
    then show ?thesis
      using True body by (subst getLargeKPermutationAtIndex_loop.simps) simp
  next
    case False
    then show ?thesis
      by (subst getLargeKPermutationAtIndex_loop.simps) simp
  qed
qed

lemma lazy_loop_no_division_by_zero:
  "0 \<le> i \<Longrightarrow> k \<le> n \<Longrightarrow>
   getKPermutationForLargeDataset_loop getElementFn n k i s \<noteq> Inl BigIntDivisionByZero"
proof (induction getElementFn n k i s rule: getKPermutationForLargeDataset_loop.induct)
  case (1 getElementFn n k i s)
  show ?case
  proof (cases "i < k")
    case True
    obtain index avail result where s: "s = (index, avail, result)"
      by (cases s)
    have b: "0 < permutationCountBig (n - i - 1) (k - i - 1)"
      using True "1.prems" by (intro permutationCountBig_pos) simp_all
    show ?thesis
    proof (cases "getKPermutationForLargeDataset_body getElementFn n k i s")
      case (Inl e)
      then have "e \<noteq> BigIntDivisionByZero"
        using b by (auto simp: getKPermutationForLargeDataset_body_def s Let_def
                         split: option.splits)
      then show ?thesis
        using True Inl by (subst getKPermutationForLargeDataset_loop.simps) simp
    next
      case (Inr s')
      have "getKPermutationForLargeDataset_loop getElementFn n k (i + 1) s'
              \<noteq> Inl BigIntDivisionByZero"
        using "1.IH" [OF True Inr] "1.prems" by simp
      then show ?thesis
        using True Inr by (subst getKPermutationForLargeDataset_loop.simps) simp
    qed
  next
    case False
    then show ?thesis
      by (subst getKPermutationForLargeDataset_loop.simps) simp
  qed
qed

lemma dense_no_division_by_zero:
  "getLargeKPermutationAtIndex BigInt elements k indexStr \<noteq> Inl BigIntDivisionByZero"
proof (cases "k \<le> int (length elements)")
  case True
  from dense_loop_no_division_by_zero [OF _ True, of 0] show ?thesis
    by (auto simp: getLargeKPermutationAtIndex_def Let_def split: option.splits sum.splits)
next
  case False
  then show ?thesis
    by (auto simp: getLargeKPermutationAtIndex_def Let_def split: option.splits)
qed

lemma lazy_no_division_by_zero:
  "getKPermutationForLargeDataset BigInt getElementFn n k indexStr \<noteq> Inl BigIntDivisionByZero"
proof (cases "k \<le> n")
  case True
  from lazy_loop_no_division_by_zero [OF _ True, of 0 getElementFn] show ?thesis
    by (auto simp: getKPermutationForLargeDataset_def Let_def split: option.splits sum.splits)
next
  case False
  then show ?thesis
    by (auto simp: getKPermutationForLargeDataset_def Let_def split: option.splits)
qed

text \<open>
  C10. For \<open>0 \<le> k \<le> n\<close> the block size \<open>permutationCountBig (n - i - 1) (k - i - 1)\<close> is at
  least \<open>1\<close> in every iteration \<open>0 \<le> i < k\<close>, and neither engine ever fails with the
  division-by-zero error of the \<^verbatim>\<open>bigint\<close> division and remainder.
\<close>

theorem blockSize_never_zero:
  assumes "0 \<le> k" "k \<le> n"
  shows "(\<forall>i. 0 \<le> i \<and> i < k \<longrightarrow> 1 \<le> permutationCountBig (n - i - 1) (k - i - 1))
       \<and> (int (length elements) = n \<longrightarrow>
            getLargeKPermutationAtIndex BigInt elements k indexStr \<noteq> Inl BigIntDivisionByZero)
       \<and> getKPermutationForLargeDataset BigInt getElementFn n k indexStr
            \<noteq> Inl BigIntDivisionByZero"
proof (intro conjI allI impI)
  fix i
  assume "0 \<le> i \<and> i < k"
  then have "0 < permutationCountBig (n - i - 1) (k - i - 1)"
    using assms by (intro permutationCountBig_pos) simp_all
  then show "1 \<le> permutationCountBig (n - i - 1) (k - i - 1)"
    by simp
next
  show "getLargeKPermutationAtIndex BigInt elements k indexStr \<noteq> Inl BigIntDivisionByZero"
    by (rule dense_no_division_by_zero)
next
  show "getKPermutationForLargeDataset BigInt getElementFn n k indexStr
          \<noteq> Inl BigIntDivisionByZero"
    by (rule lazy_no_division_by_zero)
qed

theorem blockSize_never_zero_witness:
  "(0::int) \<le> 2 \<and> (2::int) \<le> 4 \<and> (0::int) \<le> 1 \<and> (1::int) < 2
   \<and> 1 \<le> permutationCountBig (4 - 1 - 1) (2 - 1 - 1)
   \<and> int (length [''a'', ''b'', ''c'', ''d'']) = 4
   \<and> getLargeKPermutationAtIndex BigInt_decimal [''a'', ''b'', ''c'', ''d''] 2 ''11''
        \<noteq> Inl BigIntDivisionByZero
   \<and> getKPermutationForLargeDataset BigInt_decimal (\<lambda>i. i) 4 2 ''11''
        \<noteq> Inl BigIntDivisionByZero"
proof -
  have h: "(0::int) \<le> 2" "(2::int) \<le> 4" by simp_all
  have i: "(0::int) \<le> 1 \<and> (1::int) < 2" by simp
  have l: "int (length [''a'', ''b'', ''c'', ''d'']) = 4" by simp
  note t = blockSize_never_zero [where elements = "[''a'', ''b'', ''c'', ''d'']"
      and BigInt = BigInt_decimal and indexStr = "''11''" and getElementFn = "\<lambda>i. i", OF h]
  from t i have a: "1 \<le> permutationCountBig (4 - 1 - 1) (2 - 1 - 1)"
    by blast
  from t l have b: "getLargeKPermutationAtIndex BigInt_decimal [''a'', ''b'', ''c'', ''d''] 2 ''11''
        \<noteq> Inl BigIntDivisionByZero"
    by blast
  from t have c: "getKPermutationForLargeDataset BigInt_decimal (\<lambda>i. i) 4 2 ''11''
        \<noteq> Inl BigIntDivisionByZero"
    by blast
  from h i l a b c show ?thesis
    by (intro conjI) (assumption | simp)+
qed

lemma dense_first_k:
  assumes "BigInt indexStr = Some 0" "0 \<le> k" "k \<le> int (length elements)"
  shows "getLargeKPermutationAtIndex BigInt elements k indexStr
           = Inr (map Some (take (nat k) elements))"
proof -
  have "0 < permutationCountBig (int (length elements)) k"
    using assms(2,3) by (rule permutationCountBig_pos)
  then have "getLargeKPermutationAtIndex BigInt elements k indexStr
               = Inr (map Some (select elements (nat k) 0))"
    using assms by (intro dense_result) simp_all
  moreover have "select elements (nat k) 0 = take (nat k) elements"
    using assms(2,3) by (intro select_zero) simp
  ultimately show ?thesis
    by (simp only:)
qed

lemma dense_abcd:
  assumes "BigInt indexStr = Some index" "0 \<le> index" "index < 12"
  shows "getLargeKPermutationAtIndex BigInt [''a'', ''b'', ''c'', ''d''] 2 indexStr
           = Inr (map Some (select [''a'', ''b'', ''c'', ''d''] (nat 2) index))"
proof -
  have "permutationCountBig 4 2 = 12" by code_simp
  then have "index < permutationCountBig (int (length [''a'', ''b'', ''c'', ''d''])) 2"
    using assms(3) by simp
  with assms(1,2) show ?thesis
    by (intro dense_result) simp_all
qed

text \<open>
  C6. For the universe \<open>["a", "b", "c", "d"]\<close> and \<open>k = 2\<close>: the count is \<open>12\<close>, and the dense
  engine returns \<open>["a", "b"]\<close> at index 0, \<open>["a", "c"]\<close> at index 1, \<open>["b", "a"]\<close> at index 3
  and \<open>["d", "c"]\<close> at index 11, whatever string denotes the index. For every universe and
  every \<open>0 \<le> k \<le> n\<close>, index 0 gives the first \<open>k\<close> elements of the universe in their order.
\<close>

theorem getLargeKPermutationAtIndex_scenario:
  "permutationCountBig 4 2 = 12
   \<and> (BigInt sZero = Some 0 \<longrightarrow>
        getLargeKPermutationAtIndex BigInt [''a'', ''b'', ''c'', ''d''] 2 sZero
          = Inr [Some ''a'', Some ''b''])
   \<and> (BigInt sOne = Some 1 \<longrightarrow>
        getLargeKPermutationAtIndex BigInt [''a'', ''b'', ''c'', ''d''] 2 sOne
          = Inr [Some ''a'', Some ''c''])
   \<and> (BigInt sThree = Some 3 \<longrightarrow>
        getLargeKPermutationAtIndex BigInt [''a'', ''b'', ''c'', ''d''] 2 sThree
          = Inr [Some ''b'', Some ''a''])
   \<and> (BigInt sEleven = Some 11 \<longrightarrow>
        getLargeKPermutationAtIndex BigInt [''a'', ''b'', ''c'', ''d''] 2 sEleven
          = Inr [Some ''d'', Some ''c''])
   \<and> (BigInt' indexStr = Some 0 \<and> 0 \<le> k \<and> k \<le> int (length elements) \<longrightarrow>
        getLargeKPermutationAtIndex BigInt' elements k indexStr
          = Inr (map Some (take (nat k) elements)))"
proof (intro conjI impI)
  show "permutationCountBig 4 2 = 12" by code_simp
next
  assume "BigInt sZero = Some 0"
  moreover have "select [''a'', ''b'', ''c'', ''d''] (nat 2) 0 = [''a'', ''b'']" by code_simp
  ultimately show "getLargeKPermutationAtIndex BigInt [''a'', ''b'', ''c'', ''d''] 2 sZero
          = Inr [Some ''a'', Some ''b'']"
    by (simp add: dense_abcd)
next
  assume "BigInt sOne = Some 1"
  moreover have "select [''a'', ''b'', ''c'', ''d''] (nat 2) 1 = [''a'', ''c'']" by code_simp
  ultimately show "getLargeKPermutationAtIndex BigInt [''a'', ''b'', ''c'', ''d''] 2 sOne
          = Inr [Some ''a'', Some ''c'']"
    by (simp add: dense_abcd)
next
  assume "BigInt sThree = Some 3"
  moreover have "select [''a'', ''b'', ''c'', ''d''] (nat 2) 3 = [''b'', ''a'']" by code_simp
  ultimately show "getLargeKPermutationAtIndex BigInt [''a'', ''b'', ''c'', ''d''] 2 sThree
          = Inr [Some ''b'', Some ''a'']"
    by (simp add: dense_abcd)
next
  assume "BigInt sEleven = Some 11"
  moreover have "select [''a'', ''b'', ''c'', ''d''] (nat 2) 11 = [''d'', ''c'']" by code_simp
  ultimately show "getLargeKPermutationAtIndex BigInt [''a'', ''b'', ''c'', ''d''] 2 sEleven
          = Inr [Some ''d'', Some ''c'']"
    by (simp add: dense_abcd)
next
  assume "BigInt' indexStr = Some 0 \<and> 0 \<le> k \<and> k \<le> int (length elements)"
  then show "getLargeKPermutationAtIndex BigInt' elements k indexStr
          = Inr (map Some (take (nat k) elements))"
    by (intro dense_first_k) simp_all
qed

theorem getLargeKPermutationAtIndex_scenario_witness:
  "BigInt_decimal ''0'' = Some 0 \<and> BigInt_decimal ''1'' = Some 1
   \<and> BigInt_decimal ''3'' = Some 3 \<and> BigInt_decimal ''11'' = Some 11
   \<and> (0::int) \<le> 3 \<and> 3 \<le> int (length [5, 6, 7, 8, 9 :: nat])
   \<and> permutationCountBig 4 2 = 12
   \<and> getLargeKPermutationAtIndex BigInt_decimal [''a'', ''b'', ''c'', ''d''] 2 ''0''
        = Inr [Some ''a'', Some ''b'']
   \<and> getLargeKPermutationAtIndex BigInt_decimal [''a'', ''b'', ''c'', ''d''] 2 ''1''
        = Inr [Some ''a'', Some ''c'']
   \<and> getLargeKPermutationAtIndex BigInt_decimal [''a'', ''b'', ''c'', ''d''] 2 ''3''
        = Inr [Some ''b'', Some ''a'']
   \<and> getLargeKPermutationAtIndex BigInt_decimal [''a'', ''b'', ''c'', ''d''] 2 ''11''
        = Inr [Some ''d'', Some ''c'']
   \<and> getLargeKPermutationAtIndex BigInt_decimal [5, 6, 7, 8, 9 :: nat] 3 ''0''
        = Inr [Some 5, Some 6, Some 7]"
proof -
  have p: "BigInt_decimal ''0'' = Some 0" "BigInt_decimal ''1'' = Some 1"
    "BigInt_decimal ''3'' = Some 3" "BigInt_decimal ''11'' = Some 11"
    by code_simp+
  have k: "(0::int) \<le> 3" "3 \<le> int (length [5, 6, 7, 8, 9 :: nat])" by simp_all
  note t = getLargeKPermutationAtIndex_scenario [where BigInt = BigInt_decimal
      and sZero = "''0''" and sOne = "''1''" and sThree = "''3''" and sEleven = "''11''"
      and BigInt' = BigInt_decimal and indexStr = "''0''" and k = 3
      and elements = "[5, 6, 7, 8, 9 :: nat]"]
  from t p k show ?thesis
    by simp
qed

lemma dense_entry_invariant:
  assumes "getLargeKPermutationAtIndex_entry n k (index0, elements, []) i s"
    and "0 \<le> k" "k \<le> n" "int (length elements) = n"
    and "0 \<le> index0" "index0 < permutationCountBig n k"
  shows "0 \<le> i \<and> i \<le> k \<and> 0 \<le> fst s \<and> fst s < permutationCountBig (n - i) (k - i)
         \<and> int (length (fst (snd s))) = n - i"
  using assms
proof (induction rule: getLargeKPermutationAtIndex_entry.induct)
  case dense_entry_first
  then show ?case by simp
next
  case (dense_entry_next i s s')
  obtain index avail result where s: "s = (index, avail, result)"
    by (cases s)
  have inv: "0 \<le> i" "0 \<le> index" "index < permutationCountBig (n - i) (k - i)"
    "int (length avail) = n - i"
    using dense_entry_next.IH dense_entry_next.prems by (simp_all add: s)
  let ?b = "permutationCountBig (n - i - 1) (k - i - 1)"
  let ?p = "nat (index div ?b)"
  note body = dense_body_select(1) [where result = result, OF dense_entry_next.hyps(2)
      dense_entry_next.prems(2) inv(4) inv(2) inv(3)]
    dense_body_select(2) [OF dense_entry_next.hyps(2)
      dense_entry_next.prems(2) inv(4) inv(2) inv(3)]
  have s': "s' = (index mod ?b, take ?p avail @ drop (Suc ?p) avail, result @ [Some (avail ! ?p)])"
    using dense_entry_next.hyps(3) body(1) by (simp add: s)
  have pos: "0 < k - i" and le: "k - i \<le> n - i"
    using dense_entry_next.hyps(2) dense_entry_next.prems(2) by simp_all
  note bb = block_bounds [OF pos le inv(2) inv(3)]
  have b_eq: "permutationCountBig (n - (i + 1)) (k - (i + 1)) = ?b"
    by (simp add: diff_diff_eq)
  have "0 \<le> index mod ?b" "index mod ?b < permutationCountBig (n - (i + 1)) (k - (i + 1))"
    using bb(4,5) by (simp_all only: b_eq)
  moreover have "int (length (take ?p avail @ drop (Suc ?p) avail)) = n - (i + 1)"
    using length_remove_nth [OF body(2)] inv(4) by simp
  ultimately show ?case
    using inv(1) dense_entry_next.hyps(2) by (simp add: s')
qed

text \<open>
  C5. In the selection loop of the dense engine, for \<open>0 \<le> k \<le> n\<close> and an index in range,
  every iteration \<open>i < k\<close> is entered with \<open>0 \<le> index < permutationCountBig (n - i) (k - i)\<close>
  and a working copy of length \<open>n - i\<close>. Hence the block size is positive, \<open>position\<close> is the
  floor of \<open>index / blockSize\<close> and lies in \<open>0 \<dots> n - i - 1\<close>, the read at that offset is an
  element of the working copy, the removal takes out one element, and (an array having at
  most \<open>MAX_ARRAY_LENGTH\<close> entries) \<open>position\<close> is in the range where \<^verbatim>\<open>Number\<close> is exact.
\<close>

theorem getLargeKPermutationAtIndex_loop_invariant:
  assumes "0 \<le> k" "k \<le> int (length elements)"
    and "0 \<le> index0" "index0 < permutationCountBig (int (length elements)) k"
    and "getLargeKPermutationAtIndex_entry (int (length elements)) k (index0, elements, []) i
           (index, availableElements, result)"
    and "i < k"
  shows "0 \<le> index
       \<and> index < permutationCountBig (int (length elements) - i) (k - i)
       \<and> int (length availableElements) = int (length elements) - i
       \<and> 0 < permutationCountBig (int (length elements) - i - 1) (k - i - 1)
       \<and> Number (index sdiv permutationCountBig (int (length elements) - i - 1) (k - i - 1))
           = index div permutationCountBig (int (length elements) - i - 1) (k - i - 1)
       \<and> 0 \<le> index div permutationCountBig (int (length elements) - i - 1) (k - i - 1)
       \<and> index div permutationCountBig (int (length elements) - i - 1) (k - i - 1)
           < int (length availableElements)
       \<and> element_at availableElements
            (Number (index sdiv permutationCountBig (int (length elements) - i - 1) (k - i - 1)))
           = Some (availableElements
                   ! nat (index div permutationCountBig (int (length elements) - i - 1) (k - i - 1)))
       \<and> int (length (splice1 availableElements
            (Number (index sdiv permutationCountBig (int (length elements) - i - 1) (k - i - 1)))))
           = int (length availableElements) - 1
       \<and> (int (length elements) \<le> MAX_ARRAY_LENGTH \<longrightarrow>
            \<bar>index div permutationCountBig (int (length elements) - i - 1) (k - i - 1)\<bar>
              \<le> MAX_SAFE_INTEGER)"
proof -
  let ?n = "int (length elements)"
  let ?b = "permutationCountBig (?n - i - 1) (k - i - 1)"
  from dense_entry_invariant [OF assms(5) assms(1,2) refl assms(3,4)]
  have inv: "0 \<le> i" "0 \<le> index" "index < permutationCountBig (?n - i) (k - i)"
    "int (length availableElements) = ?n - i"
    by simp_all
  have pos: "0 < k - i" and le: "k - i \<le> ?n - i"
    using assms(6) assms(2) by simp_all
  have b_eq: "permutationCountBig (?n - i - 1) (k - i - 1) = ?b" ..
  note bb = block_bounds [OF pos le inv(2) inv(3)]
  define q where "q = nat (index div ?b)"
  have q: "index div ?b = int q" "q < length availableElements"
    using bb(2,3) inv(4) by (simp_all add: q_def)
  have num: "Number (index sdiv ?b) = index div ?b"
    using bb(1) inv(2) by (simp add: Number_def sdiv_nonneg)
  have el: "element_at availableElements (Number (index sdiv ?b))
              = Some (availableElements ! nat (index div ?b))"
    using element_at_nat [OF q(2)] by (simp add: num q(1))
  have sp: "int (length (splice1 availableElements (Number (index sdiv ?b))))
              = int (length availableElements) - 1"
    using splice1_nat [OF q(2)] length_remove_nth [OF q(2)] by (simp add: num q(1))
  have limits: "MAX_ARRAY_LENGTH = 4294967295" "MAX_SAFE_INTEGER = 9007199254740991"
    by (simp_all only: MAX_ARRAY_LENGTH_def MAX_SAFE_INTEGER_def)
  have lt: "index div ?b < int (length availableElements)"
    using bb(3) by (simp only: inv(4))
  have safe: "?n \<le> MAX_ARRAY_LENGTH \<longrightarrow> \<bar>index div ?b\<bar> \<le> MAX_SAFE_INTEGER"
  proof
    assume "?n \<le> MAX_ARRAY_LENGTH"
    moreover have "index div ?b < ?n"
      using bb(3) inv(1) by linarith
    ultimately have "index div ?b < 4294967295"
      by (simp only: limits)
    with bb(2) show "\<bar>index div ?b\<bar> \<le> MAX_SAFE_INTEGER"
      by (simp add: limits)
  qed
  from inv(2,3,4) bb(1) num bb(2) lt el sp safe show ?thesis
    by (intro conjI) assumption+
qed

theorem getLargeKPermutationAtIndex_loop_invariant_witness:
  "(0::int) \<le> 2 \<and> 2 \<le> int (length [''a'', ''b'', ''c'', ''d''])
   \<and> (0::int) \<le> 11 \<and> 11 < permutationCountBig (int (length [''a'', ''b'', ''c'', ''d''])) 2
   \<and> getLargeKPermutationAtIndex_entry (int (length [''a'', ''b'', ''c'', ''d''])) 2
        (11, [''a'', ''b'', ''c'', ''d''], []) (0 + 1) (2, [''a'', ''b'', ''c''], [Some ''d''])
   \<and> (0::int) + 1 < 2
   \<and> int (length [''a'', ''b'', ''c'', ''d'']) \<le> MAX_ARRAY_LENGTH
   \<and> 2 < permutationCountBig (int (length [''a'', ''b'', ''c'', ''d'']) - (0 + 1)) (2 - (0 + 1))
   \<and> 2 div permutationCountBig (int (length [''a'', ''b'', ''c'', ''d'']) - (0 + 1) - 1)
              (2 - (0 + 1) - 1)
        < int (length [''a'', ''b'', ''c''])
   \<and> element_at [''a'', ''b'', ''c'']
        (Number (2 sdiv permutationCountBig (int (length [''a'', ''b'', ''c'', ''d'']) - (0 + 1) - 1)
                          (2 - (0 + 1) - 1)))
        = Some ([''a'', ''b'', ''c'']
                ! nat (2 div permutationCountBig (int (length [''a'', ''b'', ''c'', ''d'']) - (0 + 1) - 1)
                               (2 - (0 + 1) - 1)))
   \<and> \<bar>2 div permutationCountBig (int (length [''a'', ''b'', ''c'', ''d'']) - (0 + 1) - 1)
               (2 - (0 + 1) - 1)\<bar>
        \<le> MAX_SAFE_INTEGER"
proof -
  let ?U = "[''a'', ''b'', ''c'', ''d'']"
  have h: "(0::int) \<le> 2" "2 \<le> int (length ?U)" "(0::int) \<le> 11" by simp_all
  have r: "11 < permutationCountBig (int (length ?U)) 2" by code_simp
  have body: "getLargeKPermutationAtIndex_body (int (length ?U)) 2 0 (11, ?U, [])
                = Inr (2, [''a'', ''b'', ''c''], [Some ''d''])"
    by code_simp
  have e: "getLargeKPermutationAtIndex_entry (int (length ?U)) 2 (11, ?U, []) (0 + 1)
             (2, [''a'', ''b'', ''c''], [Some ''d''])"
    by (rule dense_entry_next [OF dense_entry_first _ body]) simp
  have lt: "(0::int) + 1 < 2" by simp
  have m: "int (length ?U) \<le> MAX_ARRAY_LENGTH" by (simp add: MAX_ARRAY_LENGTH_def)
  note t = getLargeKPermutationAtIndex_loop_invariant [OF h r e lt]
  from t have a: "2 < permutationCountBig (int (length ?U) - (0 + 1)) (2 - (0 + 1))"
    by blast
  from t have b: "2 div permutationCountBig (int (length ?U) - (0 + 1) - 1) (2 - (0 + 1) - 1)
        < int (length [''a'', ''b'', ''c''])"
    by blast
  from t have c: "element_at [''a'', ''b'', ''c'']
        (Number (2 sdiv permutationCountBig (int (length ?U) - (0 + 1) - 1) (2 - (0 + 1) - 1)))
        = Some ([''a'', ''b'', ''c'']
                ! nat (2 div permutationCountBig (int (length ?U) - (0 + 1) - 1) (2 - (0 + 1) - 1)))"
    by blast
  from t m have d: "\<bar>2 div permutationCountBig (int (length ?U) - (0 + 1) - 1) (2 - (0 + 1) - 1)\<bar>
        \<le> MAX_SAFE_INTEGER"
    by blast
  from h r e lt m a b c d show ?thesis
    by (intro conjI) assumption+
qed

lemma lazy_entry_invariant:
  assumes "getKPermutationForLargeDataset_entry getElementFn n k (index0, [0..n - 1], []) i s"
    and "0 \<le> k" "k \<le> n" "0 \<le> index0" "index0 < permutationCountBig n k"
  shows "0 \<le> i \<and> i \<le> k \<and> 0 \<le> fst s \<and> fst s < permutationCountBig (n - i) (k - i)
         \<and> int (length (fst (snd s))) = n - i \<and> distinct (fst (snd s))"
  using assms
proof (induction rule: getKPermutationForLargeDataset_entry.induct)
  case lazy_entry_first
  then show ?case by simp
next
  case (lazy_entry_next i s s')
  obtain index avail result where s: "s = (index, avail, result)"
    by (cases s)
  have inv: "0 \<le> i" "0 \<le> index" "index < permutationCountBig (n - i) (k - i)"
    "int (length avail) = n - i" "distinct avail"
    using lazy_entry_next.IH lazy_entry_next.prems by (simp_all add: s)
  let ?b = "permutationCountBig (n - i - 1) (k - i - 1)"
  let ?p = "nat (index div ?b)"
  note body = lazy_body_select(1) [where result = result and getElementFn = getElementFn,
      OF lazy_entry_next.hyps(2) lazy_entry_next.prems(2) inv(4) inv(2) inv(3) inv(5)]
    lazy_body_select(2) [OF lazy_entry_next.hyps(2) lazy_entry_next.prems(2)
      inv(4) inv(2) inv(3) inv(5)]
  have s': "s' = (index mod ?b, take ?p avail @ drop (Suc ?p) avail,
                  result @ [getElementFn (avail ! ?p)])"
    using lazy_entry_next.hyps(3) body(1) by (simp add: s)
  have pos: "0 < k - i" and le: "k - i \<le> n - i"
    using lazy_entry_next.hyps(2) lazy_entry_next.prems(2) by simp_all
  note bb = block_bounds [OF pos le inv(2) inv(3)]
  have b_eq: "permutationCountBig (n - (i + 1)) (k - (i + 1)) = ?b"
    by (simp add: diff_diff_eq)
  have "0 \<le> index mod ?b" "index mod ?b < permutationCountBig (n - (i + 1)) (k - (i + 1))"
    using bb(4,5) by (simp_all only: b_eq)
  moreover have "int (length (take ?p avail @ drop (Suc ?p) avail)) = n - (i + 1)"
    using length_remove_nth [OF body(2)] inv(4) by simp
  moreover have "distinct (take ?p avail @ drop (Suc ?p) avail)"
    using inv(5) by (rule distinct_remove_nth)
  ultimately show ?case
    using inv(1) lazy_entry_next.hyps(2) by (simp add: s')
qed

lemma lazy_not_algorithm_error:
  assumes "BigInt indexStr = Some index" "0 \<le> k \<longrightarrow> 0 \<le> index \<and> index < permutationCountBig n k"
  shows "getKPermutationForLargeDataset BigInt getElementFn n k indexStr \<noteq> Inl (AlgorithmError p)"
proof (cases "0 \<le> k \<and> k \<le> n")
  case True
  with assms show ?thesis
    by (simp add: lazy_result [where BigInt = BigInt and indexStr = indexStr])
next
  case False
  then consider "n < k" | "k < 0" "k \<le> n" by linarith
  then show ?thesis
  proof cases
    case 1
    then show ?thesis by (simp add: getKPermutationForLargeDataset_def)
  next
    case 2
    have "getKPermutationForLargeDataset_loop getElementFn n k 0 s = Inr s" for s
      using 2 by (subst getKPermutationForLargeDataset_loop.simps) simp
    then show ?thesis
      using assms(1) by (simp add: getKPermutationForLargeDataset_def Let_def split: prod.splits)
  qed
qed

text \<open>
  C9. In the lazy engine, for \<open>0 \<le> k \<le> n\<close> and an index in range, the branch that throws
  \<^verbatim>\<open>Algorithm error: could not find element at position\<close> is never taken: each iteration
  \<open>i < k\<close> is entered with \<open>position\<close> in \<open>0 \<dots> size - 1\<close> of the working set, the scan finds
  the identity at that position, the loop body does not fail with that error, and neither
  does the call.
\<close>

theorem getKPermutationForLargeDataset_algorithm_error_unreachable:
  assumes "BigInt indexStr = Some index0" "0 \<le> k" "k \<le> n"
    and "0 \<le> index0" "index0 < permutationCountBig n k"
  shows "(\<forall>i index availableIndices result.
            getKPermutationForLargeDataset_entry getElementFn n k
              (index0, getKPermutationForLargeDataset_init n 0 [], []) i
              (index, availableIndices, result) \<and> i < k \<longrightarrow>
            0 \<le> Number (index sdiv permutationCountBig (n - i - 1) (k - i - 1))
            \<and> Number (index sdiv permutationCountBig (n - i - 1) (k - i - 1))
                < int (length availableIndices)
            \<and> getKPermutationForLargeDataset_scan availableIndices 0
                 (Number (index sdiv permutationCountBig (n - i - 1) (k - i - 1))) \<noteq> None
            \<and> (\<forall>p. getKPermutationForLargeDataset_body getElementFn n k i
                       (index, availableIndices, result) \<noteq> Inl (AlgorithmError p)))
       \<and> (\<forall>p. getKPermutationForLargeDataset BigInt getElementFn n k indexStr
                 \<noteq> Inl (AlgorithmError p))"
proof (intro conjI allI impI)
  fix p
  show "getKPermutationForLargeDataset BigInt getElementFn n k indexStr \<noteq> Inl (AlgorithmError p)"
    using assms by (intro lazy_not_algorithm_error) simp_all
next
  fix i index availableIndices result
  assume "getKPermutationForLargeDataset_entry getElementFn n k
              (index0, getKPermutationForLargeDataset_init n 0 [], []) i
              (index, availableIndices, result) \<and> i < k"
  then have e: "getKPermutationForLargeDataset_entry getElementFn n k
              (index0, [0..n - 1], []) i (index, availableIndices, result)" and lt: "i < k"
    by (simp_all add: init_all)
  let ?b = "permutationCountBig (n - i - 1) (k - i - 1)"
  from lazy_entry_invariant [OF e assms(2-5)]
  have inv: "0 \<le> i" "0 \<le> index" "index < permutationCountBig (n - i) (k - i)"
    "int (length availableIndices) = n - i" "distinct availableIndices"
    by simp_all
  have pos: "0 < k - i" and le: "k - i \<le> n - i"
    using lt assms(3) by simp_all
  note bb = block_bounds [OF pos le inv(2) inv(3)]
  define q where "q = nat (index div ?b)"
  have q: "index div ?b = int q" "q < length availableIndices"
    using bb(2,3) inv(4) by (simp_all add: q_def)
  have num: "Number (index sdiv ?b) = int q"
    using bb(1) inv(2) by (simp add: Number_def sdiv_nonneg q(1))
  show "0 \<le> Number (index sdiv ?b)"
    by (simp add: num)
  show "Number (index sdiv ?b) < int (length availableIndices)"
    using q(2) by (simp add: num)
  show "getKPermutationForLargeDataset_scan availableIndices 0 (Number (index sdiv ?b)) \<noteq> None"
    using scan_nth [OF q(2), of 0] by (simp add: num)
  fix p
  show "getKPermutationForLargeDataset_body getElementFn n k i (index, availableIndices, result)
          \<noteq> Inl (AlgorithmError p)"
    using lazy_body_select(1) [where result = result and getElementFn = getElementFn,
      OF lt assms(3) inv(4) inv(2) inv(3) inv(5)]
    by simp
qed

theorem getKPermutationForLargeDataset_algorithm_error_unreachable_witness:
  "BigInt_decimal ''11'' = Some 11 \<and> (0::int) \<le> 2 \<and> (2::int) \<le> 4
   \<and> (0::int) \<le> 11 \<and> 11 < permutationCountBig 4 2
   \<and> getKPermutationForLargeDataset_entry (\<lambda>i. i) 4 2
        (11, getKPermutationForLargeDataset_init 4 0 [], []) (0 + 1) (2, [0, 1, 2], [3])
   \<and> (0::int) + 1 < 2
   \<and> Number (2 sdiv permutationCountBig (4 - (0 + 1) - 1) (2 - (0 + 1) - 1))
        < int (length [0, 1, 2 :: int])
   \<and> getKPermutationForLargeDataset_scan [0, 1, 2] 0
        (Number (2 sdiv permutationCountBig (4 - (0 + 1) - 1) (2 - (0 + 1) - 1))) \<noteq> None
   \<and> getKPermutationForLargeDataset_body (\<lambda>i. i) 4 2 (0 + 1) (2, [0, 1, 2], [3])
        \<noteq> Inl (AlgorithmError 2)
   \<and> getKPermutationForLargeDataset BigInt_decimal (\<lambda>i. i) 4 2 ''11''
        \<noteq> Inl (AlgorithmError 2)
   \<and> getKPermutationForLargeDataset BigInt_decimal (\<lambda>i. i) 4 2 ''11'' = Inr [3, 2]"
proof -
  let ?s0 = "(11 :: int, getKPermutationForLargeDataset_init 4 0 [], [] :: int list)"
  have h1: "BigInt_decimal ''11'' = Some 11" by code_simp
  have h2: "(0::int) \<le> 2" "(2::int) \<le> 4" "(0::int) \<le> 11" by simp_all
  have h3: "11 < permutationCountBig 4 2" by code_simp
  have body: "getKPermutationForLargeDataset_body (\<lambda>i. i) 4 2 0 ?s0 = Inr (2, [0, 1, 2], [3])"
    by code_simp
  have e: "getKPermutationForLargeDataset_entry (\<lambda>i. i) 4 2 ?s0 (0 + 1) (2, [0, 1, 2], [3])"
    by (rule lazy_entry_next [OF lazy_entry_first _ body]) simp
  have lt: "(0::int) + 1 < 2" by simp
  have r: "getKPermutationForLargeDataset BigInt_decimal (\<lambda>i. i) 4 2 ''11'' = Inr [3, 2]"
    by code_simp
  note t = getKPermutationForLargeDataset_algorithm_error_unreachable
      [where BigInt = BigInt_decimal and indexStr = "''11''" and getElementFn = "\<lambda>i. i",
       OF h1 h2 h3]
  from t e lt have a: "Number (2 sdiv permutationCountBig (4 - (0 + 1) - 1) (2 - (0 + 1) - 1))
        < int (length [0, 1, 2 :: int])"
    by blast
  from t e lt have b: "getKPermutationForLargeDataset_scan [0, 1, 2] 0
        (Number (2 sdiv permutationCountBig (4 - (0 + 1) - 1) (2 - (0 + 1) - 1))) \<noteq> None"
    by blast
  from t e lt have c: "getKPermutationForLargeDataset_body (\<lambda>i. i) 4 2 (0 + 1) (2, [0, 1, 2], [3])
        \<noteq> Inl (AlgorithmError 2)"
    by blast
  from t have d: "getKPermutationForLargeDataset BigInt_decimal (\<lambda>i. i) 4 2 ''11''
        \<noteq> Inl (AlgorithmError 2)"
    by blast
  from h1 h2 h3 e lt a b c d r show ?thesis
    by (intro conjI) assumption+
qed








lemma store_body_frame:
  assumes "getLargeKPermutationAtIndex_store_body n k i av rs (index, h) = (outcome, h')"
  shows "length h' = length h \<and> (\<forall>a. a \<noteq> av \<and> a \<noteq> rs \<longrightarrow> h' ! a = h ! a)"
  using assms
  by (auto simp: getLargeKPermutationAtIndex_store_body_def Let_def split: if_splits)

lemma store_loop_frame:
  "getLargeKPermutationAtIndex_store_loop n k i av rs s = (outcome, h') \<Longrightarrow>
   length h' = length (snd s) \<and> (\<forall>a. a \<noteq> av \<and> a \<noteq> rs \<longrightarrow> h' ! a = snd s ! a)"
proof (induction n k i av rs s rule: getLargeKPermutationAtIndex_store_loop.induct)
  case (1 n k i av rs s)
  obtain index h where s: "s = (index, h)"
    by (cases s)
  show ?case
  proof (cases "i < k")
    case True
    obtain out1 h1 where body: "getLargeKPermutationAtIndex_store_body n k i av rs s = (out1, h1)"
      by (cases "getLargeKPermutationAtIndex_store_body n k i av rs s")
    note f1 = store_body_frame [OF body [unfolded s]]
    show ?thesis
    proof (cases out1)
      case (Inl e)
      then have "h' = h1"
        using "1.prems" True body
        by (subst (asm) getLargeKPermutationAtIndex_store_loop.simps) simp
      with f1 show ?thesis by (simp add: s)
    next
      case (Inr index1)
      have "getLargeKPermutationAtIndex_store_loop n k (i + 1) av rs (index1, h1) = (outcome, h')"
        using "1.prems" True body Inr
        by (subst (asm) getLargeKPermutationAtIndex_store_loop.simps) simp
      from "1.IH" [OF True body [symmetric] Inr this] f1 show ?thesis
        by (simp add: s)
    qed
  next
    case False
    with "1.prems" show ?thesis
      by (subst (asm) getLargeKPermutationAtIndex_store_loop.simps) auto
  qed
qed

lemma store_loop_succeeds:
  "0 \<le> i \<Longrightarrow> k \<le> n \<Longrightarrow>
   \<exists>index'. fst (getLargeKPermutationAtIndex_store_loop n k i av rs s) = Inr index'"
proof (induction n k i av rs s rule: getLargeKPermutationAtIndex_store_loop.induct)
  case (1 n k i av rs s)
  obtain index h where s: "s = (index, h)"
    by (cases s)
  show ?case
  proof (cases "i < k")
    case True
    have "0 < permutationCountBig (n - i - 1) (k - i - 1)"
      using True "1.prems" by (intro permutationCountBig_pos) simp_all
    then obtain index1 h1 where
      body: "getLargeKPermutationAtIndex_store_body n k i av rs s = (Inr index1, h1)"
      by (simp add: getLargeKPermutationAtIndex_store_body_def s Let_def)
    have "\<exists>index'. fst (getLargeKPermutationAtIndex_store_loop n k (i + 1) av rs (index1, h1))
            = Inr index'"
      using "1.IH" [OF True body [symmetric] refl] "1.prems" by simp
    then show ?thesis
      using True body by (subst getLargeKPermutationAtIndex_store_loop.simps) simp
  next
    case False
    then show ?thesis
      by (subst getLargeKPermutationAtIndex_store_loop.simps) simp
  qed
qed

lemma store_outcome:
  assumes "elements < length h"
    and "getLargeKPermutationAtIndex_store BigInt elements k indexStr h = (outcome, h')"
  shows "take (length h) h' = h"
    and "isl outcome \<longrightarrow> h' = h"
    and "\<forall>result. outcome = Inr result \<longrightarrow> length h < result \<and> result < length h'"
proof -
  let ?n = "int (length (h ! elements))"
  consider (unparsed) "BigInt indexStr = None"
    | (arity) index where "BigInt indexStr = Some index" "k > ?n"
    | (range) index where "BigInt indexStr = Some index" "k \<le> ?n"
        "index < 0 \<or> index \<ge> permutationCountBig ?n k"
    | (run) index where "BigInt indexStr = Some index" "k \<le> ?n"
        "0 \<le> index" "index < permutationCountBig ?n k"
  proof (cases "BigInt indexStr")
    case None
    then show ?thesis by (rule unparsed)
  next
    case (Some index)
    then show ?thesis
      using arity [of index] range [of index] run [of index] by linarith
  qed
  then have "take (length h) h' = h \<and> (isl outcome \<longrightarrow> h' = h)
      \<and> (\<forall>result. outcome = Inr result \<longrightarrow> length h < result \<and> result < length h')"
  proof cases
    case unparsed
    with assms(2) show ?thesis
      by (auto simp: getLargeKPermutationAtIndex_store_def)
  next
    case arity
    with assms(2) show ?thesis
      by (auto simp: getLargeKPermutationAtIndex_store_def)
  next
    case range
    with assms(2) show ?thesis
      by (auto simp: getLargeKPermutationAtIndex_store_def Let_def)
  next
    case run
    let ?h2 = "h @ [h ! elements] @ [[]]"
    let ?av = "length h"
    let ?rs = "Suc (length h)"
    obtain out1 h1 where loop:
      "getLargeKPermutationAtIndex_store_loop ?n k 0 ?av ?rs (index, ?h2) = (out1, h1)"
      by (cases "getLargeKPermutationAtIndex_store_loop ?n k 0 ?av ?rs (index, ?h2)")
    from store_loop_succeeds [OF _ run(2), of 0 ?av ?rs "(index, ?h2)"] loop
    obtain index' where out1: "out1 = Inr index'"
      by auto
    have res: "outcome = Inr ?rs" "h' = h1"
      using assms(2) run loop out1
      by (simp_all add: getLargeKPermutationAtIndex_store_def Let_def heap_alloc_def)
    note f = store_loop_frame [OF loop]
    have len: "length h1 = length h + 2"
      using f by simp
    have "take (length h) h1 = h"
    proof (rule nth_equalityI)
      show "length (take (length h) h1) = length h"
        using len by simp
    next
      fix a
      assume "a < length (take (length h) h1)"
      then have a: "a < length h" by simp
      then have "h1 ! a = ?h2 ! a"
        using f by simp
      with a show "take (length h) h1 ! a = h ! a"
        by (simp add: nth_append)
    qed
    then show ?thesis
      using len by (simp add: res)
  qed
  then show "take (length h) h' = h"
    and "isl outcome \<longrightarrow> h' = h"
    and "\<forall>result. outcome = Inr result \<longrightarrow> length h < result \<and> result < length h'"
    by blast+
qed

lemma element_at_map_Some:
  "(case element_at (map Some xs) p of None \<Rightarrow> None | Some v \<Rightarrow> v) = element_at xs p"
  by (auto simp: element_at_def nat_less_iff)

lemma splice1_map: "splice1 (map f xs) p = map f (splice1 xs p)"
  by (simp add: splice1_def Let_def take_map drop_map)

lemma store_body_refines:
  assumes "av < length h" "rs < length h" "av \<noteq> rs"
    and "h ! av = map Some avail" "h ! rs = result"
  shows "case getLargeKPermutationAtIndex_body n k i (index, avail, result) of
           Inl e \<Rightarrow> getLargeKPermutationAtIndex_store_body n k i av rs (index, h) = (Inl e, h)
         | Inr (index', avail', result') \<Rightarrow>
             (\<exists>h'. getLargeKPermutationAtIndex_store_body n k i av rs (index, h) = (Inr index', h')
                   \<and> h' ! av = map Some avail' \<and> h' ! rs = result')"
  using assms
  by (simp add: getLargeKPermutationAtIndex_body_def getLargeKPermutationAtIndex_store_body_def
        Let_def element_at_map_Some splice1_map)

lemma store_loop_refines:
  assumes "av < length h" "rs < length h" "av \<noteq> rs"
    and "h ! av = map Some (fst (snd s))" "h ! rs = snd (snd s)"
  shows "case getLargeKPermutationAtIndex_loop n k i s of
           Inl e \<Rightarrow> fst (getLargeKPermutationAtIndex_store_loop n k i av rs (fst s, h)) = Inl e
         | Inr (index', avail', result') \<Rightarrow>
             (\<exists>h'. getLargeKPermutationAtIndex_store_loop n k i av rs (fst s, h) = (Inr index', h')
                   \<and> h' ! rs = result')"
  using assms
proof (induction n k i s arbitrary: h rule: getLargeKPermutationAtIndex_loop.induct)
  case (1 n k i s)
  obtain index avail result where s: "s = (index, avail, result)"
    by (cases s)
  show ?case
  proof (cases "i < k")
    case False
    then show ?thesis
      using "1.prems"
      by (subst getLargeKPermutationAtIndex_loop.simps,
          subst getLargeKPermutationAtIndex_store_loop.simps) (simp add: s)
  next
    case True
    from "1.prems" have pre: "av < length h" "rs < length h" "av \<noteq> rs"
      "h ! av = map Some avail" "h ! rs = result"
      by (simp_all add: s)
    note body = store_body_refines [OF pre, of n k i index]
    show ?thesis
    proof (cases "getLargeKPermutationAtIndex_body n k i s")
      case (Inl e)
      with body have "getLargeKPermutationAtIndex_store_body n k i av rs (index, h) = (Inl e, h)"
        by (simp add: s)
      then show ?thesis
        using True Inl
        by (subst getLargeKPermutationAtIndex_loop.simps,
            subst getLargeKPermutationAtIndex_store_loop.simps) (simp add: s)
    next
      case (Inr s')
      obtain index' avail' result' where s': "s' = (index', avail', result')"
        by (cases s')
      from body Inr obtain h1 where
        sb: "getLargeKPermutationAtIndex_store_body n k i av rs (index, h) = (Inr index', h1)"
        and h1: "h1 ! av = map Some avail'" "h1 ! rs = result'"
        by (auto simp: s s')
      have len: "length h1 = length h"
        using store_body_frame [OF sb] by simp
      have ih: "case getLargeKPermutationAtIndex_loop n k (i + 1) s' of
           Inl e \<Rightarrow> fst (getLargeKPermutationAtIndex_store_loop n k (i + 1) av rs (fst s', h1)) = Inl e
         | Inr (index'', avail'', result'') \<Rightarrow>
             (\<exists>h'. getLargeKPermutationAtIndex_store_loop n k (i + 1) av rs (fst s', h1)
                      = (Inr index'', h')
                   \<and> h' ! rs = result'')"
        using pre(1-3) h1 by (intro "1.IH" [OF True Inr]) (simp_all add: len s')
      have l1: "getLargeKPermutationAtIndex_loop n k i s
                  = getLargeKPermutationAtIndex_loop n k (i + 1) s'"
        using True Inr by (subst getLargeKPermutationAtIndex_loop.simps) simp
      have l2: "getLargeKPermutationAtIndex_store_loop n k i av rs (fst s, h)
                  = getLargeKPermutationAtIndex_store_loop n k (i + 1) av rs (fst s', h1)"
        using True sb by (subst getLargeKPermutationAtIndex_store_loop.simps) (simp add: s s')
      from ih show ?thesis
        by (simp only: l1 l2)
    qed
  qed
qed

lemma store_refines:
  fixes es :: "'a list"
  assumes "elements < length h" "h ! elements = map Some es"
  shows "case getLargeKPermutationAtIndex BigInt es k indexStr of
           Inl e \<Rightarrow> fst (getLargeKPermutationAtIndex_store BigInt elements k indexStr h) = Inl e
         | Inr r \<Rightarrow>
             (\<exists>result h'. getLargeKPermutationAtIndex_store BigInt elements k indexStr h
                             = (Inr result, h')
                          \<and> h' ! result = r)"
proof -
  let ?n = "int (length es)"
  have n: "int (length (h ! elements)) = ?n"
    by (simp add: assms(2))
  consider (unparsed) "BigInt indexStr = None"
    | (arity) index where "BigInt indexStr = Some index" "k > ?n"
    | (range) index where "BigInt indexStr = Some index" "k \<le> ?n"
        "index < 0 \<or> index \<ge> permutationCountBig ?n k"
    | (run) index where "BigInt indexStr = Some index" "k \<le> ?n"
        "0 \<le> index" "index < permutationCountBig ?n k"
  proof (cases "BigInt indexStr")
    case None
    then show ?thesis by (rule unparsed)
  next
    case (Some index)
    then show ?thesis
      using arity [of index] range [of index] run [of index] by linarith
  qed
  then show ?thesis
  proof cases
    case unparsed
    then show ?thesis
      by (simp add: getLargeKPermutationAtIndex_def getLargeKPermutationAtIndex_store_def)
  next
    case arity
    then show ?thesis
      by (simp add: getLargeKPermutationAtIndex_def getLargeKPermutationAtIndex_store_def n)
  next
    case range
    then show ?thesis
      by (auto simp: getLargeKPermutationAtIndex_def getLargeKPermutationAtIndex_store_def
            Let_def n)
  next
    case run
    let ?h2 = "h @ [h ! elements] @ [[]]"
    let ?av = "length h"
    let ?rs = "Suc (length h)"
    let ?pure = "getLargeKPermutationAtIndex_loop ?n k 0 (index, es, [] :: 'a option list)"
    let ?store = "getLargeKPermutationAtIndex_store_loop ?n k 0 ?av ?rs (index, ?h2)"
    have pure: "getLargeKPermutationAtIndex BigInt es k indexStr
                  = (case ?pure of Inl e \<Rightarrow> Inl e
                     | Inr (index', availableElements, result) \<Rightarrow> Inr result)"
      using run by (simp add: getLargeKPermutationAtIndex_def Let_def)
    have store: "getLargeKPermutationAtIndex_store BigInt elements k indexStr h
                  = (case ?store of (Inl e, h') \<Rightarrow> (Inl e, h')
                     | (Inr index', h') \<Rightarrow> (Inr ?rs, h'))"
      using run
      by (simp add: getLargeKPermutationAtIndex_store_def Let_def n heap_alloc_def
            split: prod.splits sum.splits)
    have rel: "case ?pure of
           Inl e \<Rightarrow> fst ?store = Inl e
         | Inr (index', avail', result') \<Rightarrow>
             (\<exists>h'. ?store = (Inr index', h') \<and> h' ! ?rs = result')"
      using store_loop_refines [where av = ?av and rs = ?rs and h = ?h2
            and s = "(index, es, [] :: 'a option list)" and n = ?n and k = k and i = 0]
      by (simp add: assms(2) nth_append split: sum.splits prod.splits)
    show ?thesis
    proof (cases ?pure)
      case (Inl e)
      with rel have "fst ?store = Inl e" by simp
      then obtain h' where "?store = (Inl e, h')"
        by (cases ?store) simp
      then show ?thesis
        by (simp add: pure store Inl)
    next
      case (Inr s')
      obtain index' avail' result' where s': "s' = (index', avail', result')"
        by (cases s')
      from rel Inr obtain h' where "?store = (Inr index', h')" "h' ! ?rs = result'"
        by (auto simp: s')
      then show ?thesis
        by (simp add: pure store Inr s')
    qed
  qed
qed

text \<open>
  C8. A call of the dense engine never changes its input array, whether it returns or
  throws: in the store after the call the array at \<open>elements\<close> is what it was, and so is
  every other array that existed before the call (the removals happen on the copy that the
  call allocates). When the call throws, the store is the one before the call, so no part
  of a result exists anywhere; when it returns, the result is an array allocated by the
  call.
\<close>

theorem getLargeKPermutationAtIndex_leaves_input_unchanged:
  assumes "elements < length h"
    and "getLargeKPermutationAtIndex_store BigInt elements k indexStr h = (outcome, h')"
  shows "h' ! elements = h ! elements
       \<and> take (length h) h' = h
       \<and> (isl outcome \<longrightarrow> h' = h)
       \<and> (\<forall>result. outcome = Inr result \<longrightarrow>
             length h \<le> result \<and> result < length h' \<and> result \<noteq> elements)"
proof -
  note o = store_outcome [where BigInt = BigInt, OF assms]
  have "h' ! elements = take (length h) h' ! elements"
    using assms(1) by simp
  then have "h' ! elements = h ! elements"
    by (simp only: o(1))
  moreover have "\<forall>result. outcome = Inr result \<longrightarrow>
             length h \<le> result \<and> result < length h' \<and> result \<noteq> elements"
    using o(3) assms(1) by auto
  ultimately show ?thesis
    using o(1,2) by blast
qed

theorem getLargeKPermutationAtIndex_leaves_input_unchanged_witness:
  "(1::nat) < length [[Some (1::nat)], [Some 10, Some 20, Some 30, Some 40], []]
   \<and> getLargeKPermutationAtIndex_store BigInt_decimal 1 2 ''11''
        [[Some (1::nat)], [Some 10, Some 20, Some 30, Some 40], []]
      = (Inr 4, [[Some 1], [Some 10, Some 20, Some 30, Some 40], [],
                 [Some 10, Some 20], [Some 40, Some 30]])
   \<and> [[Some (1::nat)], [Some 10, Some 20, Some 30, Some 40], [],
       [Some 10, Some 20], [Some 40, Some 30]] ! 1
      = [[Some 1], [Some 10, Some 20, Some 30, Some 40], []] ! 1
   \<and> length [[Some (1::nat)], [Some 10, Some 20, Some 30, Some 40], []] \<le> 4
   \<and> getLargeKPermutationAtIndex_store BigInt_decimal 1 2 ''12''
        [[Some (1::nat)], [Some 10, Some 20, Some 30, Some 40], []]
      = (Inl (IndexOutOfBounds ''12'' 11), [[Some 1], [Some 10, Some 20, Some 30, Some 40], []])
   \<and> isl (Inl (IndexOutOfBounds ''12'' 11) :: error + nat)"
proof -
  let ?h = "[[Some (1::nat)], [Some 10, Some 20, Some 30, Some 40], []]"
  have a: "(1::nat) < length ?h" by simp
  have r: "getLargeKPermutationAtIndex_store BigInt_decimal 1 2 ''11'' ?h
      = (Inr 4, [[Some 1], [Some 10, Some 20, Some 30, Some 40], [],
                 [Some 10, Some 20], [Some 40, Some 30]])"
    by code_simp
  have e: "getLargeKPermutationAtIndex_store BigInt_decimal 1 2 ''12'' ?h
      = (Inl (IndexOutOfBounds ''12'' 11), ?h)"
    by code_simp
  note tr = getLargeKPermutationAtIndex_leaves_input_unchanged [OF a r]
  note te = getLargeKPermutationAtIndex_leaves_input_unchanged [OF a e]
  from tr have b: "[[Some (1::nat)], [Some 10, Some 20, Some 30, Some 40], [],
       [Some 10, Some 20], [Some 40, Some 30]] ! 1 = ?h ! 1"
    by (rule conjunct1)
  from tr have c: "length ?h \<le> 4"
    by blast
  from te have d: "isl (Inl (IndexOutOfBounds ''12'' 11) :: error + nat)"
    by simp
  from a r b c e d show ?thesis
    by (intro conjI) assumption+
qed

end
